theory Spec2Isabelle
  imports Main
begin

section \<open>Strings and characters\<close>

text \<open>
  Python's \<^verbatim>\<open>str\<close> is a sequence of Unicode code points. The model works on
  the code points U+0000 to U+00FF (Latin-1), one \<^typ>\<open>char\<close> each; every character
  class, \<^verbatim>\<open>lower()\<close> and \<^verbatim>\<open>strip()\<close> below is Python's, restricted to that range.
\<close>

definition in_range :: "char \<Rightarrow> char \<Rightarrow> char \<Rightarrow> bool" where
  "in_range lo hi c = ((of_char lo :: nat) \<le> of_char c \<and> (of_char c :: nat) \<le> of_char hi)"

text \<open>The two quote characters, U+0027 and U+0022, and the line feed U+000A.\<close>

definition squote :: char where
  "squote = CHR 0x27"

definition dquote :: char where
  "dquote = CHR 0x22"

definition newline :: char where
  "newline = CHR 0x0A"

text \<open>\<^verbatim>\<open>[A-Za-z]\<close>\<close>

definition is_alpha :: "char \<Rightarrow> bool" where
  "is_alpha c = (in_range CHR ''A'' CHR ''Z'' c \<or> in_range CHR ''a'' CHR ''z'' c)"

text \<open>\<^verbatim>\<open>\d\<close>: the decimal digits; below U+0100 these are \<^verbatim>\<open>0-9\<close> only.\<close>

definition is_digit :: "char \<Rightarrow> bool" where
  "is_digit c = in_range CHR ''0'' CHR ''9'' c"

text \<open>\<^verbatim>\<open>[a-zA-Z0-9._%+-]\<close>\<close>

definition local_char :: "char \<Rightarrow> bool" where
  "local_char c = (in_range CHR ''a'' CHR ''z'' c \<or> in_range CHR ''A'' CHR ''Z'' c \<or>
     in_range CHR ''0'' CHR ''9'' c \<or> c = CHR ''.'' \<or> c = CHR ''_'' \<or> c = CHR ''%'' \<or>
     c = CHR ''+'' \<or> c = CHR ''-'')"

text \<open>\<^verbatim>\<open>[a-zA-Z0-9.-]\<close>\<close>

definition domain_char :: "char \<Rightarrow> bool" where
  "domain_char c = (in_range CHR ''a'' CHR ''z'' c \<or> in_range CHR ''A'' CHR ''Z'' c \<or>
     in_range CHR ''0'' CHR ''9'' c \<or> c = CHR ''.'' \<or> c = CHR ''-'')"

text \<open>\<^verbatim>\<open>['"]\<close> and \<^verbatim>\<open>[^'"]\<close>\<close>

definition is_quote :: "char \<Rightarrow> bool" where
  "is_quote c = (c = squote \<or> c = dquote)"

definition non_quote :: "char \<Rightarrow> bool" where
  "non_quote c = (if is_quote c then False else True)"

text \<open>
  \<^verbatim>\<open>\s\<close> and \<^verbatim>\<open>str.isspace\<close>: below U+0100 the whitespace characters are
  U+0009 to U+000D, U+001C to U+001F, the space, U+0085 and U+00A0.
\<close>

definition is_space :: "char \<Rightarrow> bool" where
  "is_space c = (in_range (CHR 0x09) (CHR 0x0D) c \<or> in_range (CHR 0x1C) (CHR 0x1F) c \<or>
     c = CHR '' '' \<or> c = CHR 0x85 \<or> c = CHR 0xA0)"

definition is_char :: "char \<Rightarrow> char \<Rightarrow> bool" where
  "is_char a c = (c = a)"

text \<open>
  \<^verbatim>\<open>str.lower\<close>: \<^verbatim>\<open>A-Z\<close> and the Latin-1 capitals U+00C0 to U+00DE (without the
  multiplication sign U+00D7) move up by 32; every other character stays.
\<close>

definition lower_char :: "char \<Rightarrow> char" where
  "lower_char c =
     (if in_range CHR ''A'' CHR ''Z'' c then char_of (of_char c + (32 :: nat))
      else if in_range (CHR 0xC0) (CHR 0xDE) c then
        (if c = CHR 0xD7 then c else char_of (of_char c + (32 :: nat)))
      else c)"

definition lower :: "string \<Rightarrow> string" where
  "lower s = map lower_char s"

text \<open>\<^verbatim>\<open>str.strip()\<close>\<close>

definition strip :: "string \<Rightarrow> string" where
  "strip s = rev (dropWhile is_space (rev (dropWhile is_space s)))"

text \<open>\<^verbatim>\<open>s.startswith(p)\<close>\<close>

definition startswith :: "string \<Rightarrow> string \<Rightarrow> bool" where
  "startswith s p = (take (length p) s = p)"

text \<open>\<^verbatim>\<open>fp in s\<close>: \<open>fp\<close> is a contiguous substring of \<open>s\<close>.\<close>

fun contains :: "string \<Rightarrow> string \<Rightarrow> bool" where
  "contains fp [] = (fp = [])"
| "contains fp (c # cs) = (if startswith (c # cs) fp then True else contains fp cs)"

text \<open>\<^verbatim>\<open>s.replace(old, '')\<close> for a non-empty \<open>old\<close>: every occurrence, left to right.\<close>

fun remove_all :: "string \<Rightarrow> string \<Rightarrow> string" where
  "remove_all old [] = []"
| "remove_all old (c # cs) =
     (if old \<noteq> [] \<and> startswith (c # cs) old then remove_all old (drop (length old - 1) cs)
      else c # remove_all old cs)"

text \<open>\<^verbatim>\<open>sep.join(xs)\<close>\<close>

fun join :: "string \<Rightarrow> string list \<Rightarrow> string" where
  "join sep [] = []"
| "join sep [x] = x"
| "join sep (x # y # ys) = x @ sep @ join sep (y # ys)"

section \<open>Regular expressions\<close>

text \<open>
  Every pattern of the source is a sequence of single characters of a class and of
  greedy repetitions of a class (\<^verbatim>\<open>+\<close>, \<^verbatim>\<open>*\<close>, \<^verbatim>\<open>{2,}\<close>), with \<^verbatim>\<open>$\<close> last in one of
  them. \<open>match_items\<close> is the backtracking matcher of Python's \<^verbatim>\<open>re\<close> on such
  sequences, anchored at the start of the text: a repetition first takes as many
  characters as it can and gives them back one at a time, down to its minimum, until
  the rest of the pattern matches. The result is the number of characters each item
  has taken in the first match found.

  \<^verbatim>\<open>$\<close> (without \<^verbatim>\<open>re.MULTILINE\<close>) matches at the end of the text and also just before
  a line feed that ends the text.
\<close>

datatype item = One "char \<Rightarrow> bool" | Many nat "char \<Rightarrow> bool" | Dollar

fun first_some :: "'a option list \<Rightarrow> 'a option" where
  "first_some [] = None"
| "first_some (None # xs) = first_some xs"
| "first_some (Some x # xs) = Some x"

fun match_items :: "item list \<Rightarrow> string \<Rightarrow> nat list option" where
  "match_items [] s = Some []"
| "match_items (One p # items) s =
     (case s of
        [] \<Rightarrow> None
      | c # cs \<Rightarrow> if p c then map_option (Cons 1) (match_items items cs) else None)"
| "match_items (Many n p # items) s =
     first_some (map (\<lambda>k. map_option (Cons k) (match_items items (drop k s)))
       (rev [n ..< Suc (length (takeWhile p s))]))"
| "match_items (Dollar # items) s =
     (if s = [] \<or> s = [newline] then map_option (Cons 0) (match_items items s) else None)"

text \<open>\<^verbatim>\<open>bool(re.match(pattern, s))\<close>\<close>

definition re_match :: "item list \<Rightarrow> string \<Rightarrow> bool" where
  "re_match p s = (case match_items p s of None \<Rightarrow> False | Some ns \<Rightarrow> True)"

text \<open>\<^verbatim>\<open>bool(re.search(pattern, s))\<close>: the first position at which the pattern matches.\<close>

fun re_search :: "item list \<Rightarrow> string \<Rightarrow> bool" where
  "re_search p [] = re_match p []"
| "re_search p (c # cs) = (if re_match p (c # cs) then True else re_search p cs)"

text \<open>
  The scan shared by \<^verbatim>\<open>re.findall\<close> and \<^verbatim>\<open>re.sub\<close>: the matches from left to right,
  none overlapping an earlier one; each is given as the text from its first character
  on, with the characters taken by each item. After an empty match the scan moves one
  character on.
\<close>

fun finditer :: "item list \<Rightarrow> string \<Rightarrow> (string \<times> nat list) list" where
  "finditer p [] = (case match_items p [] of None \<Rightarrow> [] | Some ns \<Rightarrow> [([], ns)])"
| "finditer p (c # cs) =
     (case match_items p (c # cs) of
        None \<Rightarrow> finditer p cs
      | Some ns \<Rightarrow> (c # cs, ns) # finditer p (drop (sum_list ns - 1) cs))"

text \<open>\<^verbatim>\<open>re.findall\<close> of a pattern without a group: the matched texts.\<close>

definition findall :: "item list \<Rightarrow> string \<Rightarrow> string list" where
  "findall p s = map (\<lambda>(t, ns). take (sum_list ns) t) (finditer p s)"

text \<open>\<^verbatim>\<open>re.findall\<close> of a pattern whose one group is its item \<open>i\<close>: the group's texts.\<close>

definition findall_group :: "nat \<Rightarrow> item list \<Rightarrow> string \<Rightarrow> string list" where
  "findall_group i p s =
     map (\<lambda>(t, ns). take (ns ! i) (drop (sum_list (take i ns)) t)) (finditer p s)"

section \<open>The email validator\<close>

text \<open>\<^verbatim>\<open>[a-zA-Z0-9._%+-]+@[a-zA-Z0-9.-]+\.[A-Za-z]{2,}\<close>\<close>

definition email_pattern :: "item list" where
  "email_pattern = [Many 1 local_char, One (is_char CHR ''@''), Many 1 domain_char,
     One (is_char CHR ''.''), Many 2 is_alpha]"

text \<open>The same between \<^verbatim>\<open>^\<close> and \<^verbatim>\<open>$\<close>; \<^verbatim>\<open>re.match\<close> starts at the first character.\<close>

definition pattern :: "item list" where
  "pattern = email_pattern @ [Dollar]"

text \<open>\<^verbatim>\<open>\d{3}-\d{3}-\d{4}\<close>\<close>

definition phone_pattern :: "item list" where
  "phone_pattern = replicate 3 (One is_digit) @ [One (is_char CHR ''-'')] @
     replicate 3 (One is_digit) @ [One (is_char CHR ''-'')] @ replicate 4 (One is_digit)"

definition common_false_positives :: "string list" where
  "common_false_positives = [''example.com'', ''domain.com'', ''email.com'', ''your-email.com'',
     ''username@'', ''@domain'', ''example@example'']"

text \<open>\<^verbatim>\<open>email.split('@')[0]\<close>\<close>

definition local_part :: "string \<Rightarrow> string" where
  "local_part email = takeWhile (\<lambda>c. c \<noteq> CHR ''@'') email"

definition validate_email :: "string \<Rightarrow> bool" where
  "validate_email email =
     (if email = [] \<or> CHR ''@'' \<notin> set email then False
      else if list_ex (\<lambda>fp. contains fp (lower email)) common_false_positives then False
      else if re_search phone_pattern (local_part email) then False
      else re_match pattern email)"

section \<open>Email extraction\<close>

text \<open>
  The exceptions the model tells apart. \<^verbatim>\<open>requests.RequestException\<close> is the one
  \<^verbatim>\<open>process_url\<close> catches; the others are subclasses of \<^verbatim>\<open>Exception\<close> that it lets
  through: \<open>ValueError\<close> is raised by \<^verbatim>\<open>int\<close>, by \<^verbatim>\<open>chr\<close> and by \<^verbatim>\<open>urljoin\<close> and
  \<^verbatim>\<open>urlparse\<close>, \<open>OverflowError\<close> by \<^verbatim>\<open>chr\<close>, \<open>AttributeError\<close> by a method call on an
  object that is not a string, \<open>OtherException\<close> is any other exception of the
  fetching, rendering and parsing libraries.
\<close>

datatype exn = RequestException | ValueError | OverflowError | AttributeError | OtherException

text \<open>
  What the source reads of a parsed page: the \<^verbatim>\<open>a\<close> tags that have an \<^verbatim>\<open>href\<close>, with
  their \<^verbatim>\<open>get_text()\<close>; \<^verbatim>\<open>soup.stripped_strings\<close>; and the \<^verbatim>\<open>get_text()\<close> of every
  \<^verbatim>\<open>script\<close> tag.
\<close>

record a_tag =
  href :: string
  link_text :: string

record soup =
  a_tags :: "a_tag list"
  stripped_strings :: "string list"
  script_texts :: "string list"

text \<open>\<^verbatim>\<open>extract_emails_from_text\<close>\<close>

definition extract_emails_from_text :: "string \<Rightarrow> string set" where
  "extract_emails_from_text txt =
     (if txt = [] then {}
      else fold (\<lambda>m emails.
             (let email = strip (lower m)
              in if validate_email email then insert email emails else emails))
           (findall email_pattern txt) {})"

text \<open>
  \<^verbatim>\<open>re.sub(r'&#(\d+);', lambda m: chr(int(m.group(1))), text)\<close>.
  \<^verbatim>\<open>int\<close> raises \<^verbatim>\<open>ValueError\<close> on more than 4300 digits, leading zeros counted (the
  default limit of CPython since 3.11). \<^verbatim>\<open>chr\<close> raises \<^verbatim>\<open>ValueError\<close> on a number above
  U+10FFFF and \<^verbatim>\<open>OverflowError\<close> from \<open>2 ^ 31\<close> on. A code point from U+0100 to
  U+10FFFF is outside the alphabet of the model: the decoded text is only scanned
  with \<open>email_pattern\<close>, whose classes hold no character above U+007F, so U+00FF, which
  no class holds either, stands in for it.
\<close>

definition entity_pattern :: "item list" where
  "entity_pattern = [One (is_char CHR ''&''), One (is_char CHR ''#''), Many 1 is_digit,
     One (is_char CHR '';'')]"

definition int_of_digits :: "string \<Rightarrow> int" where
  "int_of_digits ds = foldl (\<lambda>n c. 10 * n + (of_char c - 48)) 0 ds"

definition py_int :: "string \<Rightarrow> exn + int" where
  "py_int ds = (if 4300 < length ds then Inl ValueError else Inr (int_of_digits ds))"

definition py_chr :: "int \<Rightarrow> exn + char" where
  "py_chr n =
     (if n < 0x100 then Inr (char_of n)
      else if n < 0x110000 then Inr (CHR 0xFF)
      else if n < 0x80000000 then Inl ValueError
      else Inl OverflowError)"

definition decode_entity :: "string \<Rightarrow> exn + char" where
  "decode_entity ds = (case py_int ds of Inl e \<Rightarrow> Inl e | Inr n \<Rightarrow> py_chr n)"

fun sub_entities :: "string \<Rightarrow> exn + string" where
  "sub_entities [] = Inr []"
| "sub_entities (c # cs) =
     (case match_items entity_pattern (c # cs) of
        None \<Rightarrow> (case sub_entities cs of Inl e \<Rightarrow> Inl e | Inr r \<Rightarrow> Inr (c # r))
      | Some ns \<Rightarrow>
          (case decode_entity (take (ns ! 2) (drop 2 (c # cs))) of
             Inl e \<Rightarrow> Inl e
           | Inr d \<Rightarrow>
               (case sub_entities (drop (sum_list ns - 1) cs) of
                  Inl e \<Rightarrow> Inl e
                | Inr r \<Rightarrow> Inr (d # r))))"

text \<open>
  \<^verbatim>\<open>extract_obfuscated_emails\<close>. \<open>concat_pattern\<close> is
  \<^verbatim>\<open>['"][a-zA-Z0-9._%+-]+['"]\s*\+\s*['"]\@['"]\s*\+\s*['"][a-zA-Z0-9.-]+\.[A-Za-z]{2,}['"]\<close>
  and \<open>parts_pattern\<close> is \<^verbatim>\<open>['"]([^'"]*)['"]\s*\+\s*\<close>, whose group is its item 1.
\<close>

definition concat_pattern :: "item list" where
  "concat_pattern = [One is_quote, Many 1 local_char, One is_quote,
     Many 0 is_space, One (is_char CHR ''+''), Many 0 is_space,
     One is_quote, One (is_char CHR ''@''), One is_quote,
     Many 0 is_space, One (is_char CHR ''+''), Many 0 is_space,
     One is_quote, Many 1 domain_char, One (is_char CHR ''.''), Many 2 is_alpha, One is_quote]"

definition parts_pattern :: "item list" where
  "parts_pattern = [One is_quote, Many 0 non_quote, One is_quote,
     Many 0 is_space, One (is_char CHR ''+''), Many 0 is_space]"

definition reconstruct :: "string \<Rightarrow> string" where
  "reconstruct m = concat (findall_group 1 parts_pattern (m @ ''+''))"

definition extract_obfuscated_emails :: "string \<Rightarrow> exn + string set" where
  "extract_obfuscated_emails txt =
     (let emails = fold (\<lambda>m emails.
             (let reconstructed = reconstruct m
              in if CHR ''@'' \<in> set reconstructed \<and> validate_email reconstructed
                 then insert reconstructed emails else emails))
           (findall concat_pattern txt) {}
      in case sub_entities txt of
           Inl e \<Rightarrow> Inl e
         | Inr text_decoded \<Rightarrow> Inr (emails \<union> extract_emails_from_text text_decoded))"

text \<open>\<^verbatim>\<open>extract_emails\<close>: the mailto links, the visible text, the scripts.\<close>

definition mailto_email :: "string \<Rightarrow> string" where
  "mailto_email h = lower (strip (remove_all ''mailto:'' (takeWhile (\<lambda>c. c \<noteq> CHR ''?'') h)))"

fun scripts_loop :: "string list \<Rightarrow> string set \<Rightarrow> exn + string set" where
  "scripts_loop [] emails = Inr emails"
| "scripts_loop (script_text # rest) emails =
     (case extract_obfuscated_emails script_text of
        Inl e \<Rightarrow> Inl e
      | Inr found \<Rightarrow> scripts_loop rest (emails \<union> found))"

definition extract_emails :: "soup \<Rightarrow> exn + string set" where
  "extract_emails sp =
     (let emails1 = fold (\<lambda>a emails.
             if startswith (href a) ''mailto:''
             then (let email = mailto_email (href a)
                   in if validate_email email then insert email emails else emails)
             else emails)
           (a_tags sp) {};
          txt = join '' '' (stripped_strings sp);
          emails2 = fold (\<lambda>email emails.
             if validate_email email then insert (lower email) emails else emails)
           (findall email_pattern txt) emails1
      in scripts_loop (script_texts sp) emails2)"

section \<open>Subpage discovery\<close>

text \<open>
  \<^verbatim>\<open>urljoin\<close> and \<^verbatim>\<open>urlparse\<close> of \<^verbatim>\<open>urllib.parse\<close>, the responses of the network
  and the order in which Python iterates a set are not code of the repository: they
  are the fields of the environment \<open>env\<close> below. \<^verbatim>\<open>urljoin\<close> and \<^verbatim>\<open>urlparse\<close> raise
  \<^verbatim>\<open>ValueError\<close> on a malformed URL (an unclosed bracket in the host, for one), so
  each gives a result or an exception. A set of URLs is built as the list of its
  elements without repetition.
\<close>

record parsed_url =
  scheme :: string
  netloc :: string
  path :: string

definition keywords_list :: "string list" where
  "keywords_list = [''contact'', ''about'', ''reach'', ''support'', ''help'', ''info'', ''team'',
     ''staff'', ''brokers'', ''get in touch'', ''our people'', ''meet the team'', ''directory'',
     ''contact us'', ''about us'', ''reach us'']"

definition set_add :: "string \<Rightarrow> string list \<Rightarrow> string list" where
  "set_add x xs = (if x \<in> set xs then xs else xs @ [x])"

section \<open>The crawl of one site\<close>

text \<open>
  The effects of a crawl, in the order they happen: the requests sent, the sleeps and
  the progress messages printed by scrapper.py.
\<close>

datatype event =
    Get string
  | Sleep int
  | Sleep_uniform nat nat
  | Print_scraping_base string
  | Print_scraping_subpage int int string
  | Print_attempt_failed int int string
  | Print_failed_to_retrieve string int
  | Print_error exn

text \<open>
  What the \<^verbatim>\<open>try\<close> block of \<^verbatim>\<open>process_url\<close> gets for one request: the parsed page
  (\<^verbatim>\<open>session.get\<close>, \<^verbatim>\<open>render\<close> and \<^verbatim>\<open>BeautifulSoup\<close> all succeeded) or the exception
  one of them raised. The answer may depend on everything that happened before.
\<close>

datatype response = Page soup | Raises exn

record env =
  respond :: "event list \<Rightarrow> string \<Rightarrow> response"
  urljoin :: "string \<Rightarrow> string \<Rightarrow> exn + string"
  urlparse :: "string \<Rightarrow> exn + parsed_url"
  set_order :: "string list \<Rightarrow> string list"

text \<open>
  \<^verbatim>\<open>find_subpage_urls\<close>; \<open>subpage_loop\<close> is its loop over the \<^verbatim>\<open>a\<close> tags. An exception
  of \<^verbatim>\<open>urlparse\<close> or \<^verbatim>\<open>urljoin\<close> leaves the function.
\<close>

fun subpage_loop :: "env \<Rightarrow> string \<Rightarrow> string \<Rightarrow> a_tag list \<Rightarrow> string list \<Rightarrow> exn + string list" where
  "subpage_loop ev base_url base_netloc [] subpage_urls = Inr subpage_urls"
| "subpage_loop ev base_url base_netloc (a # rest) subpage_urls =
     (let txt = lower (strip (link_text a))
      in case urljoin ev base_url (href a) of
           Inl e \<Rightarrow> Inl e
         | Inr abs_url \<Rightarrow>
             (case urlparse ev abs_url of
                Inl e \<Rightarrow> Inl e
              | Inr parsed \<Rightarrow>
                  subpage_loop ev base_url base_netloc rest
                    (if list_ex (\<lambda>keyword. contains keyword txt) keywords_list \<or>
                        list_ex (\<lambda>keyword. contains keyword (lower (path parsed))) keywords_list
                     then (if netloc parsed = base_netloc
                              \<and> scheme parsed \<in> set [''http'', ''https'']
                           then set_add abs_url subpage_urls else subpage_urls)
                     else subpage_urls)))"

definition find_subpage_urls :: "env \<Rightarrow> soup \<Rightarrow> string \<Rightarrow> exn + string list" where
  "find_subpage_urls ev sp base_url =
     (case urlparse ev base_url of
        Inl e \<Rightarrow> Inl e
      | Inr parsed_base \<Rightarrow> subpage_loop ev base_url (netloc parsed_base) (a_tags sp) [])"

text \<open>The state of one job: \<^verbatim>\<open>visited_urls\<close> and the effects so far.\<close>

record state =
  visited_urls :: "string set"
  trace :: "event list"

definition emit :: "event \<Rightarrow> state \<Rightarrow> state" where
  "emit e st = st\<lparr>trace := trace st @ [e]\<rparr>"

text \<open>\<^verbatim>\<open>range(n)\<close>\<close>

definition py_range :: "int \<Rightarrow> int list" where
  "py_range n = [0 .. n - 1]"

text \<open>
  \<^verbatim>\<open>process_url\<close>. \<open>attempts\<close> is its \<^verbatim>\<open>for attempt in range(max_retries)\<close> loop
  over the attempts still to make, with its \<^verbatim>\<open>else\<close> branch when none is left. The
  result is what the call returns, or the exception that leaves it, and the state.
\<close>

type_synonym page_result = "string set \<times> string list"

fun attempts :: "env \<Rightarrow> string \<Rightarrow> int \<Rightarrow> int list \<Rightarrow> state \<Rightarrow> (exn + page_result) \<times> state" where
  "attempts ev url max_retries [] st =
     (Inr ({}, []), emit (Print_failed_to_retrieve url max_retries) st)"
| "attempts ev url max_retries (attempt # rest) st =
     (case respond ev (trace st) url of
        Page sp \<Rightarrow>
          (case extract_emails sp of
             Inl e \<Rightarrow> (Inl e, emit (Get url) st)
           | Inr emails \<Rightarrow>
               (case find_subpage_urls ev sp url of
                  Inl e \<Rightarrow> (Inl e, emit (Get url) st)
                | Inr found \<Rightarrow> (Inr (emails, set_order ev found), emit (Get url) st)))
      | Raises e \<Rightarrow>
          (if e = RequestException then
             (let st1 = emit (Print_attempt_failed (attempt + 1) max_retries url) (emit (Get url) st);
                  st2 = (if attempt < max_retries - 1 then emit (Sleep (2 * (attempt + 1))) st1
                         else st1)
              in attempts ev url max_retries rest st2)
           else (Inl e, emit (Get url) st)))"

definition process_url :: "env \<Rightarrow> string \<Rightarrow> int \<Rightarrow> state \<Rightarrow> (exn + page_result) \<times> state" where
  "process_url ev url max_retries st =
     (if url \<in> visited_urls st then (Inr ({}, []), st)
      else attempts ev url max_retries (py_range max_retries)
             (st\<lparr>visited_urls := insert url (visited_urls st)\<rparr>))"

text \<open>
  The \<^verbatim>\<open>while subpages_to_visit and pages_visited < max_subpages\<close> loop of
  \<^verbatim>\<open>find_emails\<close>, on the frontier \<^verbatim>\<open>subpages_to_visit\<close>. An exception that leaves
  \<^verbatim>\<open>process_url\<close> ends the loop in the \<^verbatim>\<open>except Exception\<close> handler of \<^verbatim>\<open>find_emails\<close>.
  The result is \<^verbatim>\<open>all_emails\<close>, \<^verbatim>\<open>pages_visited\<close> and the state at the end.
\<close>

fun drain :: "env \<Rightarrow> int \<Rightarrow> int \<Rightarrow> nat \<times> nat \<Rightarrow> string list \<Rightarrow> int \<Rightarrow> string set \<Rightarrow> state
    \<Rightarrow> string set \<times> int \<times> state" where
  "drain ev max_subpages max_retries delay [] pages_visited all_emails st =
     (all_emails, pages_visited, st)"
| "drain ev max_subpages max_retries delay (current_url # rest) pages_visited all_emails st =
     (if pages_visited < max_subpages then
        (if current_url \<in> visited_urls st
         then drain ev max_subpages max_retries delay rest pages_visited all_emails st
         else
           (let st1 = emit (Print_scraping_subpage pages_visited max_subpages current_url)
                        (emit (Sleep_uniform (fst delay) (snd delay)) st)
            in case process_url ev current_url max_retries st1 of
                 (Inl e, st2) \<Rightarrow> (all_emails, pages_visited, emit (Print_error e) st2)
               | (Inr (emails, subpages), st2) \<Rightarrow>
                   drain ev max_subpages max_retries delay rest (pages_visited + 1)
                     (all_emails \<union> emails) st2))
      else (all_emails, pages_visited, st))"

text \<open>
  \<^verbatim>\<open>find_emails\<close> for a seed that is a string: \<open>crawl\<close> gives the emails, the counter
  and the state at the end. The emails are the elements of the list the source
  returns, whose order is that of a set. \<^verbatim>\<open>HTMLSession()\<close> is taken to succeed. When the
  fetch of the seed raises, the source has not yet assigned \<^verbatim>\<open>pages_visited\<close>; the
  counter is then given as 0.
\<close>

definition normalize_seed :: "string \<Rightarrow> string" where
  "normalize_seed base_url =
     (if startswith base_url ''http://'' \<or> startswith base_url ''https://'' then base_url
      else ''https://'' @ base_url)"

definition crawl :: "env \<Rightarrow> string \<Rightarrow> int \<Rightarrow> int \<Rightarrow> nat \<times> nat \<Rightarrow> string set \<times> int \<times> state" where
  "crawl ev base_url max_subpages max_retries delay =
     (let seed = normalize_seed base_url;
          st0 = \<lparr>visited_urls = {}, trace = [Print_scraping_base seed]\<rparr>
      in case process_url ev seed max_retries st0 of
           (Inl e, st) \<Rightarrow> ({}, 0, emit (Print_error e) st)
         | (Inr (emails, subpages), st) \<Rightarrow>
             drain ev max_subpages max_retries delay subpages 1 emails st)"

text \<open>
  A value handed to \<^verbatim>\<open>find_emails\<close>: a string, or an object of another type (a cell
  of the sheet that was not converted), on which \<^verbatim>\<open>base_url.startswith\<close>, outside the
  \<^verbatim>\<open>try\<close> block, raises.
\<close>

datatype pyval = Str string | Not_str

definition find_emails :: "env \<Rightarrow> pyval \<Rightarrow> int \<Rightarrow> int \<Rightarrow> nat \<times> nat \<Rightarrow> exn + string set" where
  "find_emails ev base_url max_subpages max_retries delay =
     (case base_url of
        Not_str \<Rightarrow> Inl AttributeError
      | Str s \<Rightarrow> Inr (fst (crawl ev s max_subpages max_retries delay)))"

section \<open>The batch\<close>

text \<open>
  \<^verbatim>\<open>worker\<close> of app.py calls \<^verbatim>\<open>find_emails(url)\<close> with the defaults
  \<^verbatim>\<open>max_subpages=10, max_retries=2, delay_between_requests=(1, 3)\<close>; its
  \<^verbatim>\<open>except Exception\<close> returns the empty list.
\<close>

definition worker :: "env \<Rightarrow> pyval \<Rightarrow> exn + string set" where
  "worker ev url =
     (case find_emails ev url 10 2 (1, 3) of
        Inr emails \<Rightarrow> Inr emails
      | Inl e \<Rightarrow> Inr {})"

text \<open>
  \<^verbatim>\<open>process_urls_in_parallel\<close>: \<^verbatim>\<open>executor.map(worker, urls)\<close> gives one result per
  URL, in the order of the URLs; the job of row \<open>i\<close> runs in a process of its own, in
  the environment \<open>world i\<close>.
\<close>

definition process_urls_in_parallel :: "(nat \<Rightarrow> env) \<Rightarrow> pyval list \<Rightarrow> (exn + string set) list" where
  "process_urls_in_parallel world urls = map (\<lambda>(i, url). worker (world i) url) (enumerate 0 urls)"

section \<open>Worker sizing\<close>

text \<open>
  \<^verbatim>\<open>get_optimal_workers\<close> of app.py; \<open>cpu_count\<close> is what
  \<^verbatim>\<open>multiprocessing.cpu_count()\<close> returns. \<open>min3\<close> is Python's \<^verbatim>\<open>min\<close> of three.
\<close>

definition min3 :: "int \<Rightarrow> int \<Rightarrow> int \<Rightarrow> int" where
  "min3 a b c = min a (min b c)"

definition get_optimal_workers :: "int \<Rightarrow> int \<Rightarrow> int" where
  "get_optimal_workers cpu_count file_size =
     (if file_size \<le> 100 then min3 cpu_count 4 file_size
      else if file_size \<le> 300 then min3 cpu_count 8 file_size
      else min3 (cpu_count * 2) 16 file_size)"

section \<open>Observations on a trace\<close>

text \<open>The URLs requested, and the subpages announced by \<^verbatim>\<open>Scraping subpage\<close>, in order.\<close>

definition requested :: "event list \<Rightarrow> string list" where
  "requested evs = concat (map (\<lambda>e. case e of Get u \<Rightarrow> [u] | _ \<Rightarrow> []) evs)"

definition subpages_scraped :: "event list \<Rightarrow> string list" where
  "subpages_scraped evs =
     concat (map (\<lambda>e. case e of Print_scraping_subpage k m u \<Rightarrow> [u] | _ \<Rightarrow> []) evs)"

text \<open>The seconds slept between the attempts, in order.\<close>

definition backoffs :: "event list \<Rightarrow> int list" where
  "backoffs evs = concat (map (\<lambda>e. case e of Sleep d \<Rightarrow> [d] | _ \<Rightarrow> []) evs)"

definition trace_of :: "string set \<times> int \<times> state \<Rightarrow> event list" where
  "trace_of r = trace (snd (snd r))"

text \<open>
  What a fetch that fails at every attempt does, as the source's loop is written: for
  the attempts \<open>k = 1, ..., max_retries\<close> the request, the message
  \<^verbatim>\<open>Attempt k/max_retries failed\<close> and, before every attempt but the last, a sleep of
  \<open>2 * k\<close> seconds; then the message \<^verbatim>\<open>Failed to retrieve\<close>.
\<close>

definition failed_attempts :: "string \<Rightarrow> int \<Rightarrow> event list" where
  "failed_attempts url max_retries =
     concat (map (\<lambda>k. [Get url, Print_attempt_failed k max_retries url] @
                       (if k < max_retries then [Sleep (2 * k)] else []))
               [1 .. max_retries])
     @ [Print_failed_to_retrieve url max_retries]"

definition emits :: "event list \<Rightarrow> state \<Rightarrow> state" where
  "emits evs st = st\<lparr>trace := trace st @ evs\<rparr>"

text \<open>The frontier of a job: what \<^verbatim>\<open>process_url\<close> returns as subpages of the seed.\<close>

definition seed_frontier :: "env \<Rightarrow> string \<Rightarrow> int \<Rightarrow> string list" where
  "seed_frontier ev base_url max_retries =
     (case process_url ev (normalize_seed base_url) max_retries
             \<lparr>visited_urls = {}, trace = [Print_scraping_base (normalize_seed base_url)]\<rparr> of
        (Inl e, st) \<Rightarrow> []
      | (Inr (emails, subpages), st) \<Rightarrow> subpages)"

text \<open>No request fails.\<close>

definition all_ok :: "env \<Rightarrow> bool" where
  "all_ok ev = (\<forall>h u. \<exists>sp. respond ev h u = Page sp)"

text \<open>
  No exception leaves \<^verbatim>\<open>process_url\<close>: a request either fails with a
  \<^verbatim>\<open>RequestException\<close> or gives a page whose emails and subpage URLs are extracted
  without an exception.
\<close>

definition returns :: "exn + 'a \<Rightarrow> bool" where
  "returns r = (case r of Inl e \<Rightarrow> False | Inr x \<Rightarrow> True)"

definition never_raises :: "env \<Rightarrow> bool" where
  "never_raises ev = (\<forall>h u. case respond ev h u of
       Page sp \<Rightarrow> returns (extract_emails sp) \<and> returns (find_subpage_urls ev sp u)
     | Raises e \<Rightarrow> e = RequestException)"

text \<open>
  The invariant of a job with seed \<open>seed\<close>: a URL that is not in \<^verbatim>\<open>visited_urls\<close> was
  never requested and a visited one at most \<open>B\<close> times; the subpages scraped are
  visited, pairwise different and different from the seed.
\<close>

definition fetch_inv :: "nat \<Rightarrow> string \<Rightarrow> state \<Rightarrow> bool" where
  "fetch_inv B seed st =
     ((\<forall>u. count_list (requested (trace st)) u \<le> (if u \<in> visited_urls st then B else 0))
      \<and> distinct (subpages_scraped (trace st))
      \<and> set (subpages_scraped (trace st)) \<subseteq> visited_urls st
      \<and> seed \<in> visited_urls st
      \<and> seed \<notin> set (subpages_scraped (trace st)))"

section \<open>Example sites\<close>

text \<open>
  URLs of the shape \<^verbatim>\<open>scheme://host/path\<close>, on which \<open>example_urlparse\<close> agrees with
  \<^verbatim>\<open>urlparse\<close>; the links of the example pages are absolute, so \<^verbatim>\<open>urljoin\<close> returns
  them as they are. Neither raises in the example environments.
\<close>

definition example_urlparse :: "string \<Rightarrow> parsed_url" where
  "example_urlparse u =
     (let sch = takeWhile (\<lambda>c. c \<noteq> CHR '':'') u;
          r = drop (length sch + 3) u
      in \<lparr>scheme = sch, netloc = takeWhile (\<lambda>c. c \<noteq> CHR ''/'') r,
          path = dropWhile (\<lambda>c. c \<noteq> CHR ''/'') r\<rparr>)"

definition link :: "string \<Rightarrow> a_tag" where
  "link h = \<lparr>href = h, link_text = []\<rparr>"

text \<open>A seed page with ten links to \<^verbatim>\<open>https://s.io/about0\<close> ... \<^verbatim>\<open>about9\<close>.\<close>

definition seed_page :: soup where
  "seed_page = \<lparr>a_tags = map (\<lambda>d. link (''https://s.io/about'' @ [d])) ''0123456789'',
     stripped_strings = [''hello a@s.io''], script_texts = []\<rparr>"

definition sub_page :: soup where
  "sub_page = \<lparr>a_tags = [link ''https://s.io/contact''], stripped_strings = [''b@s.io''],
     script_texts = []\<rparr>"

text \<open>Every request succeeds.\<close>

definition example_env :: env where
  "example_env = \<lparr>respond = (\<lambda>h u. if u = ''https://s.io'' then Page seed_page else Page sub_page),
     urljoin = (\<lambda>b h. Inr h), urlparse = (\<lambda>u. Inr (example_urlparse u)),
     set_order = (\<lambda>xs. xs)\<rparr>"

text \<open>Every request fails with a \<^verbatim>\<open>RequestException\<close>.\<close>

definition down_env :: env where
  "down_env = example_env\<lparr>respond := (\<lambda>h u. Raises RequestException)\<rparr>"

text \<open>
  A page whose text holds \<^verbatim>\<open>jane@acme.org\<close> and whose script holds
  \<^verbatim>\<open>"Jane" + "@" + "Acme.org"\<close>.
\<close>

definition jane_script :: string where
  "jane_script = [dquote] @ ''Jane'' @ [dquote] @ '' + '' @ [dquote] @ ''@'' @ [dquote] @
     '' + '' @ [dquote] @ ''Acme.org'' @ [dquote]"

definition jane_page :: soup where
  "jane_page = \<lparr>a_tags = [], stripped_strings = [''jane@acme.org''], script_texts = [jane_script]\<rparr>"

definition jane_env :: env where
  "jane_env = example_env\<lparr>respond := (\<lambda>h u. Page jane_page)\<rparr>"

text \<open>As \<open>example_env\<close>, with every URL of the frontier listed twice.\<close>

definition dup_env :: env where
  "dup_env = example_env\<lparr>set_order := (\<lambda>xs. concat (map (\<lambda>x. [x, x]) xs))\<rparr>"


text \<open>A seed page with the one link \<^verbatim>\<open>https://s.io/about0\<close>.\<close>

definition small_seed_page :: soup where
  "small_seed_page = \<lparr>a_tags = [link ''https://s.io/about0''], stripped_strings = [],
     script_texts = []\<rparr>"

definition small_env :: env where
  "small_env = example_env\<lparr>respond := (\<lambda>h u. if u = ''https://s.io'' then Page small_seed_page
       else Page sub_page)\<rparr>"

text \<open>The state before anything is visited, and the state after the seed is.\<close>

definition start :: state where
  "start = \<lparr>visited_urls = {}, trace = []\<rparr>"


section \<open>The concatenation of the spec's example\<close>

text \<open>
  \<^verbatim>\<open>"jane" + "@" + "acme.org"\<close> in all its variants: \<open>qs\<close> are the six quote
  characters and \<open>ws\<close> the four stretches of whitespace around the two \<^verbatim>\<open>+\<close>.
\<close>

definition literal :: "char \<Rightarrow> string \<Rightarrow> char \<Rightarrow> string" where
  "literal qa body qb = qa # body @ [qb]"

definition plus_sign :: "string \<Rightarrow> string \<Rightarrow> string" where
  "plus_sign wa wb = wa @ ''+'' @ wb"

definition jane_expr :: "char list \<Rightarrow> string list \<Rightarrow> string" where
  "jane_expr qs ws =
     literal (qs ! 0) ''jane'' (qs ! 1) @ plus_sign (ws ! 0) (ws ! 1) @
     literal (qs ! 2) ''@'' (qs ! 3) @ plus_sign (ws ! 2) (ws ! 3) @
     literal (qs ! 4) ''acme.org'' (qs ! 5)"

text \<open>
  Every numeric character reference \<^verbatim>\<open>&#N;\<close> of the text has at most 4300 digits and
  \<open>N\<close> at most U+10FFFF.
\<close>

definition entities_in_range :: "string \<Rightarrow> bool" where
  "entities_in_range txt =
     list_all (\<lambda>(t, ns). length (take (ns ! 2) (drop 2 t)) \<le> 4300
                 \<and> int_of_digits (take (ns ! 2) (drop 2 t)) < 0x110000)
       (finditer entity_pattern txt)"

text \<open>
  The scan of \<^verbatim>\<open>re.findall(p, s)\<close> arrives at the offset \<open>n\<close> of the text \<open>s\<close>: no match
  that it finds before that offset runs beyond it.
\<close>

fun scan_reaches :: "item list \<Rightarrow> string \<Rightarrow> nat \<Rightarrow> bool" where
  "scan_reaches p s 0 = True"
| "scan_reaches p [] (Suc n) = False"
| "scan_reaches p (c # cs) (Suc n) =
     (case match_items p (c # cs) of
        None \<Rightarrow> scan_reaches p cs n
      | Some ns \<Rightarrow>
          (if sum_list ns - 1 \<le> n
           then scan_reaches p (drop (sum_list ns - 1) cs) (n - (sum_list ns - 1))
           else False))"

text \<open>\<^verbatim>\<open>"a"+"@"+"b.cc\<close>: a concatenation that still lacks its closing quote.\<close>

definition open_concat :: string where
  "open_concat = [dquote] @ ''a'' @ [dquote] @ ''+'' @ [dquote] @ ''@'' @ [dquote] @ ''+'' @
     [dquote] @ ''b.cc''"

text \<open>
  The shape \<^verbatim>\<open>local@domain.tld\<close> in the words of the specification: a local part of
  letters, digits and \<^verbatim>\<open>._%+-\<close>, a domain of letters, digits and \<^verbatim>\<open>.-\<close>, and a top-level
  label of two or more letters.
\<close>

definition local_at_domain_tld :: "string \<Rightarrow> bool" where
  "local_at_domain_tld s =
     (\<exists>loc dom tld. s = loc @ ''@'' @ dom @ ''.'' @ tld
        \<and> loc \<noteq> [] \<and> list_all local_char loc
        \<and> dom \<noteq> [] \<and> list_all domain_char dom
        \<and> 2 \<le> length tld \<and> list_all is_alpha tld)"

text \<open>The shape \<^verbatim>\<open>ddd-ddd-dddd\<close> of twelve characters.\<close>

definition phone_shaped :: "string \<Rightarrow> bool" where
  "phone_shaped d =
     (length d = 12 \<and> list_all is_digit (take 3 d) \<and> d ! 3 = CHR ''-''
        \<and> list_all is_digit (take 3 (drop 4 d)) \<and> d ! 7 = CHR ''-''
        \<and> list_all is_digit (drop 8 d))"

section \<open>Properties\<close>

subsection \<open>The matcher\<close>

declare match_items.simps(3) [simp del]

lemma first_some_skip:
  "list_all (\<lambda>x. x = None) xs \<Longrightarrow> first_some (xs @ ys) = first_some ys"
  by (induction xs) auto

lemma match_many_backtrack:
  assumes tw: "length (takeWhile p s) = K"
    and k: "n \<le> k" "k \<le> K"
    and hit: "match_items items (drop k s) = Some ns"
    and miss: "\<And>j. k < j \<Longrightarrow> j \<le> K \<Longrightarrow> match_items items (drop j s) = None"
  shows "match_items (Many n p # items) s = Some (k # ns)"
proof -
  let ?f = "\<lambda>j. map_option (Cons j) (match_items items (drop j s))"
  have "[n ..< k + (Suc K - k)] = [n ..< k] @ [k ..< k + (Suc K - k)]"
    using k(1) by (rule upt_add_eq_append)
  moreover have "k + (Suc K - k) = Suc K"
    using k(2) by simp
  moreover have "[k ..< Suc K] = k # [Suc k ..< Suc K]"
    using k(2) by (simp add: upt_conv_Cons)
  ultimately have split: "[n ..< Suc K] = [n ..< k] @ k # [Suc k ..< Suc K]"
    by simp
  have none: "list_all (\<lambda>x. x = None) (map ?f (rev [Suc k ..< Suc K]))"
    using miss by (auto simp: list_all_iff)
  have "match_items (Many n p # items) s = first_some (map ?f (rev [n ..< Suc K]))"
    by (simp only: match_items.simps(3) tw)
  also have "\<dots> = first_some (map ?f (rev [Suc k ..< Suc K]) @ (?f k # map ?f (rev [n ..< k])))"
    by (simp only: split rev_append rev.simps append_assoc append.simps map_append list.map)
  also have "\<dots> = first_some (?f k # map ?f (rev [n ..< k]))"
    by (rule first_some_skip [OF none])
  also have "\<dots> = Some (k # ns)"
    by (simp add: hit)
  finally show ?thesis .
qed

lemma match_many_greedy:
  assumes "list_all p xs" and "rest = [] \<or> \<not> p (hd rest)" and "n \<le> length xs"
    and "match_items items rest = Some ns"
  shows "match_items (Many n p # items) (xs @ rest) = Some (length xs # ns)"
proof -
  have "takeWhile p rest = []"
    using assms(2) by (cases rest) auto
  then have tw: "takeWhile p (xs @ rest) = xs"
    using assms(1) by (simp add: list_all_iff takeWhile_append2)
  show ?thesis
    by (rule match_many_backtrack [where K = "length xs"]) (simp_all add: tw assms)
qed

lemma match_one:
  "p c \<Longrightarrow> match_items items cs = Some ns \<Longrightarrow> match_items (One p # items) (c # cs) = Some (1 # ns)"
  by simp

lemma match_spaces:
  assumes "list_all is_space w" and "rest = [] \<or> \<not> is_space (hd rest)"
    and "match_items items rest = Some ns"
  shows "match_items (Many 0 is_space # items) (w @ rest) = Some (length w # ns)"
  using assms by (intro match_many_greedy) simp_all

lemma finditer_hit:
  assumes "match_items p (m @ rest) = Some ns" and "sum_list ns = length m" and "m \<noteq> []"
  shows "finditer p (m @ rest) = (m @ rest, ns) # finditer p rest"
proof -
  from assms(3) obtain c cs where m: "m = c # cs" by (cases m) auto
  have "drop (sum_list ns - 1) (cs @ rest) = rest"
    using assms(2) m by simp
  then show ?thesis
    using assms(1) m by simp
qed

lemma finditer_skip:
  assumes "list_all (\<lambda>c. \<not> p c) pre"
  shows "finditer (One p # items) (pre @ s) = finditer (One p # items) s"
  using assms by (induction pre) simp_all

lemma take_prefix: "n = length m \<Longrightarrow> take n (m @ rest) = m"
  by simp

lemma scan_reaches_finditer:
  "scan_reaches p s n \<Longrightarrow> \<exists>X. finditer p s = X @ finditer p (drop n s)"
proof (induction p s n rule: scan_reaches.induct)
  case (1 p s)
  show ?case by simp
next
  case (2 p n)
  then show ?case by simp
next
  case (3 p c cs n)
  show ?case
  proof (cases "match_items p (c # cs)")
    case None
    with "3.prems" have "scan_reaches p cs n" by simp
    from "3.IH"(1) [OF None this] None show ?thesis by simp
  next
    case (Some ns)
    let ?k = "sum_list ns - 1"
    from "3.prems" Some have k: "?k \<le> n" and r: "scan_reaches p (drop ?k cs) (n - ?k)"
      by (simp_all split: if_splits)
    from "3.IH"(2) [OF Some k r] obtain X where
      "finditer p (drop ?k cs) = X @ finditer p (drop (n - ?k) (drop ?k cs))" ..
    with k have "finditer p (c # cs) = ((c # cs, ns) # X) @ finditer p (drop (Suc n) (c # cs))"
      using Some by simp
    then show ?thesis ..
  qed
qed

lemma first_some_map:
  "first_some (map g ks) = Some y \<Longrightarrow> \<exists>k \<in> set ks. g k = Some y"
proof (induction ks)
  case Nil
  then show ?case by simp
next
  case (Cons k ks)
  then show ?case by (cases "g k") auto
qed

lemma match_many_sound:
  assumes "match_items (Many n q # items) s = Some ns"
  shows "\<exists>k ns'. ns = k # ns' \<and> n \<le> k \<and> k \<le> length s \<and> list_all q (take k s)
           \<and> match_items items (drop k s) = Some ns'"
proof -
  let ?K = "length (takeWhile q s)"
  from assms
  have "first_some (map (\<lambda>k. map_option (Cons k) (match_items items (drop k s)))
        (rev [n ..< Suc ?K])) = Some ns"
    by (simp only: match_items.simps(3))
  from first_some_map [OF this] obtain k ns' where
    k: "n \<le> k" "k \<le> ?K" and m: "match_items items (drop k s) = Some ns'" and ns: "ns = k # ns'"
    by auto
  have "take k s = take k (takeWhile q s)"
    using k(2) by (metis takeWhile_dropWhile_id take_append diff_is_0_eq' take_0 append_Nil2)
  then have "set (take k s) \<subseteq> set (takeWhile q s)"
    by (metis set_take_subset)
  then have "list_all q (take k s)"
    by (auto simp: list_all_iff dest: set_takeWhileD)
  moreover have "k \<le> length s"
    using k(2) length_takeWhile_le [of q s] by (rule order_trans)
  ultimately show ?thesis
    using k(1) m ns by blast
qed

lemma match_one_sound:
  assumes "match_items (One q # items) s = Some ns"
  shows "\<exists>c cs ns'. s = c # cs \<and> q c \<and> ns = 1 # ns' \<and> match_items items cs = Some ns'"
  using assms by (cases s) (auto split: if_splits)

subsection \<open>The validator\<close>

lemma validate_email_examples:
  "\<not> validate_email ''john123-456-7890@site.com''"
  "\<not> validate_email ''a@example.com''"
  "validate_email ''a@b.co''"
  by code_simp+

lemma validate_email_rejects:
  "CHR ''@'' \<notin> set s \<Longrightarrow> \<not> validate_email s"
  "fp \<in> set common_false_positives \<Longrightarrow> contains fp (lower s) \<Longrightarrow> \<not> validate_email s"
  "re_search phone_pattern (local_part s) \<Longrightarrow> \<not> validate_email s"
  "\<not> re_match pattern s \<Longrightarrow> \<not> validate_email s"
  by (auto simp: validate_email_def list_ex_iff)

lemma pattern_shape:
  assumes "re_match pattern s"
  shows "local_at_domain_tld s \<or> (\<exists>t. s = t @ [newline] \<and> local_at_domain_tld t)"
proof -
  from assms obtain ns where "match_items pattern s = Some ns"
    by (auto simp: re_match_def split: option.splits)
  then have m: "match_items (Many 1 local_char # One (is_char CHR ''@'') # Many 1 domain_char #
      One (is_char CHR ''.'') # Many 2 is_alpha # [Dollar]) s = Some ns"
    by (simp add: pattern_def email_pattern_def)
  from match_many_sound [OF m] obtain k1 n1 where
    k1: "1 \<le> k1" "k1 \<le> length s" "list_all local_char (take k1 s)"
    and m1: "match_items (One (is_char CHR ''@'') # Many 1 domain_char #
      One (is_char CHR ''.'') # Many 2 is_alpha # [Dollar]) (drop k1 s) = Some n1"
    by blast
  from match_one_sound [OF m1] obtain s1 n2 where
    s1: "drop k1 s = CHR ''@'' # s1"
    and m2: "match_items (Many 1 domain_char # One (is_char CHR ''.'') # Many 2 is_alpha # [Dollar]) s1
      = Some n2"
    by (auto simp: is_char_def)
  from match_many_sound [OF m2] obtain k2 n3 where
    k2: "1 \<le> k2" "k2 \<le> length s1" "list_all domain_char (take k2 s1)"
    and m3: "match_items (One (is_char CHR ''.'') # Many 2 is_alpha # [Dollar]) (drop k2 s1) = Some n3"
    by blast
  from match_one_sound [OF m3] obtain s2 n4 where
    s2: "drop k2 s1 = CHR ''.'' # s2"
    and m4: "match_items (Many 2 is_alpha # [Dollar]) s2 = Some n4"
    by (auto simp: is_char_def)
  from match_many_sound [OF m4] obtain k3 n5 where
    k3: "2 \<le> k3" "k3 \<le> length s2" "list_all is_alpha (take k3 s2)"
    and m5: "match_items [Dollar] (drop k3 s2) = Some n5"
    by blast
  from m5 have tail: "drop k3 s2 = [] \<or> drop k3 s2 = [newline]"
    by (auto split: if_splits)
  let ?t = "take k1 s @ ''@'' @ take k2 s1 @ ''.'' @ take k3 s2"
  have "s = take k1 s @ drop k1 s" by simp
  also have "\<dots> = take k1 s @ CHR ''@'' # (take k2 s1 @ drop k2 s1)" by (simp add: s1)
  also have "\<dots> = take k1 s @ CHR ''@'' # take k2 s1 @ CHR ''.'' # (take k3 s2 @ drop k3 s2)"
    by (simp add: s2)
  finally have s: "s = ?t @ drop k3 s2" by simp
  have shape: "local_at_domain_tld ?t"
    unfolding local_at_domain_tld_def
    using k1 k2 k3
    by (intro exI [of _ "take k1 s"] exI [of _ "take k2 s1"] exI [of _ "take k3 s2"]) auto
  from tail show ?thesis
  proof
    assume "drop k3 s2 = []"
    with s shape show ?thesis by simp
  next
    assume "drop k3 s2 = [newline]"
    with s shape show ?thesis by metis
  qed
qed

lemma validate_email_shape:
  "validate_email s \<Longrightarrow> local_at_domain_tld s \<or> (\<exists>t. s = t @ [newline] \<and> local_at_domain_tld t)"
  by (rule pattern_shape) (auto simp: validate_email_def split: if_splits)

text \<open>
  \<^verbatim>\<open>$\<close> also matches before a line feed that ends the text, so the anchored pattern
  accepts \<^verbatim>\<open>a@b.co\<close> followed by a line feed, a string that is not of the shape
  \<^verbatim>\<open>local@domain.tld\<close>. By \<open>validate_email_shape\<close> that is the only way past the
  shape. No caller passes a string that ends with a line feed: the validator is
  called on matches of the unanchored pattern, on a stripped \<^verbatim>\<open>href\<close> and on the joined
  literals of a match of the concatenation pattern.
\<close>

lemma validate_email_accepts_trailing_newline:
  "validate_email (''a@b.co'' @ [newline]) \<and> \<not> local_at_domain_tld (''a@b.co'' @ [newline])"
proof
  show "validate_email (''a@b.co'' @ [newline])"
    by code_simp
  show "\<not> local_at_domain_tld (''a@b.co'' @ [newline])"
  proof
    assume "local_at_domain_tld (''a@b.co'' @ [newline])"
    then obtain loc dom tld where
      s: "''a@b.co'' @ [newline] = loc @ ''@'' @ dom @ ''.'' @ tld"
      and tld: "2 \<le> length tld" "list_all is_alpha tld"
      by (auto simp: local_at_domain_tld_def)
    from tld(1) have ne: "tld \<noteq> []" by auto
    have "last (''a@b.co'' @ [newline]) = last tld"
      unfolding s using ne by simp
    then have "last tld = newline" by simp
    moreover have "is_alpha (last tld)"
      using tld(2) ne by (simp add: list_all_iff)
    ultimately show False
      by (simp add: is_alpha_def in_range_def newline_def)
  qed
qed

lemma contains_append: "contains fp (a @ fp @ b)"
proof (induction a)
  case Nil
  have "startswith (fp @ b) fp"
    by (simp add: startswith_def)
  then show ?case by (cases "fp @ b") auto
next
  case (Cons c a)
  then show ?case by simp
qed

lemma contains_split: "contains fp s \<Longrightarrow> \<exists>a b. s = a @ fp @ b"
proof (induction s)
  case Nil
  then show ?case by simp
next
  case (Cons c cs)
  show ?case
  proof (cases "startswith (c # cs) fp")
    case True
    then have "c # cs = [] @ fp @ drop (length fp) (c # cs)"
      by (metis append_Nil append_take_drop_id startswith_def)
    then show ?thesis by blast
  next
    case False
    with Cons obtain a b where "cs = a @ fp @ b" by auto
    then have "c # cs = (c # a) @ fp @ b" by simp
    then show ?thesis by blast
  qed
qed

lemma contains_lower: "contains fp s \<Longrightarrow> contains (lower fp) (lower s)"
proof -
  assume "contains fp s"
  then obtain a b where "s = a @ fp @ b"
    using contains_split by blast
  then have "lower s = lower a @ lower fp @ lower b"
    by (simp add: lower_def)
  then show ?thesis
    by (simp only: contains_append)
qed

lemma lower_false_positives: "fp \<in> set common_false_positives \<Longrightarrow> lower fp = fp"
  by (auto simp: common_false_positives_def lower_def lower_char_def in_range_def)

lemma re_search_append: "re_match p t \<Longrightarrow> re_search p (a @ t)"
proof (induction a)
  case Nil
  then show ?case by (cases t) simp_all
next
  case (Cons c a)
  then show ?case by simp
qed

lemma phone_shaped_match:
  assumes "phone_shaped d"
  shows "re_match phone_pattern (d @ b)"
proof -
  from assms have "length d = 12" by (simp add: phone_shaped_def)
  then obtain c0 c1 c2 c3 c4 c5 c6 c7 c8 c9 c10 c11 where
    d: "d = [c0, c1, c2, c3, c4, c5, c6, c7, c8, c9, c10, c11]"
    by (auto simp: length_Suc_conv eval_nat_numeral)
  from assms show ?thesis
    unfolding d
    by (simp add: phone_shaped_def phone_pattern_def re_match_def is_char_def eval_nat_numeral)
qed

lemma phone_shaped_search:
  assumes "phone_shaped d" and "contains d t"
  shows "re_search phone_pattern t"
proof -
  from contains_split [OF assms(2)] obtain a b where "t = a @ d @ b" by blast
  with re_search_append [OF phone_shaped_match [OF assms(1)]] show ?thesis by simp
qed

text \<open>
  C5. The three examples of the claim, and the four rules: the validator rejects a
  string without \<^verbatim>\<open>@\<close>; a string that holds a fragment of the denylist, in any case of
  its letters; a string whose part before the first \<^verbatim>\<open>@\<close> holds twelve characters
  \<^verbatim>\<open>ddd-ddd-dddd\<close>; and a string that the anchored pattern
  \<^verbatim>\<open>^[a-zA-Z0-9._%+-]+@[a-zA-Z0-9.-]+\.[A-Za-z]{2,}$\<close> does not match. For a string that
  does not end with a line feed the last rule is the shape \<^verbatim>\<open>local@domain.tld\<close> itself: a
  string that is not of that shape is rejected.
\<close>

theorem validate_email_rules:
  "\<not> validate_email ''john123-456-7890@site.com''
   \<and> \<not> validate_email ''a@example.com''
   \<and> validate_email ''a@b.co''
   \<and> (CHR ''@'' \<notin> set s \<longrightarrow> \<not> validate_email s)
   \<and> (fp \<in> set common_false_positives \<and> (contains fp s \<or> contains fp (lower s))
        \<longrightarrow> \<not> validate_email s)
   \<and> (phone_shaped d \<and> contains d (local_part s) \<longrightarrow> \<not> validate_email s)
   \<and> (\<not> re_match pattern s \<longrightarrow> \<not> validate_email s)
   \<and> (\<not> local_at_domain_tld s \<and> (s = [] \<or> last s \<noteq> newline) \<longrightarrow> \<not> validate_email s)"
proof (intro conjI impI)
  show "\<not> validate_email ''john123-456-7890@site.com''"
    by code_simp
  show "\<not> validate_email ''a@example.com''"
    by code_simp
  show "validate_email ''a@b.co''"
    by code_simp
  show "\<not> validate_email s" if "CHR ''@'' \<notin> set s"
    using that by (rule validate_email_rejects(1))
  show "\<not> validate_email s"
    if h: "fp \<in> set common_false_positives \<and> (contains fp s \<or> contains fp (lower s))"
  proof -
    from h have "contains fp (lower s)"
      using contains_lower [of fp s] lower_false_positives [of fp] by auto
    with h show ?thesis
      using validate_email_rejects(2) by blast
  qed
  show "\<not> validate_email s" if h: "phone_shaped d \<and> contains d (local_part s)"
  proof -
    from h have "re_search phone_pattern (local_part s)"
      using phone_shaped_search by blast
    then show ?thesis
      by (rule validate_email_rejects(3))
  qed
  show "\<not> validate_email s" if "\<not> re_match pattern s"
    using that by (rule validate_email_rejects(4))
  show "\<not> validate_email s" if h: "\<not> local_at_domain_tld s \<and> (s = [] \<or> last s \<noteq> newline)"
  proof
    assume "validate_email s"
    from validate_email_shape [OF this] h show False
      by auto
  qed
qed

theorem validate_email_rules_witness:
  "CHR ''@'' \<notin> set ''john.site.com'' \<and> \<not> validate_email ''john.site.com''
   \<and> ''@domain'' \<in> set common_false_positives \<and> contains ''@domain'' (lower ''Bob@Domain.org'')
   \<and> \<not> validate_email ''Bob@Domain.org''
   \<and> phone_shaped ''123-456-7890'' \<and> contains ''123-456-7890'' (local_part ''x123-456-7890y@b.co'')
   \<and> \<not> validate_email ''x123-456-7890y@b.co''
   \<and> \<not> re_match pattern ''a@b'' \<and> \<not> validate_email ''a@b''"
proof -
  have a: "CHR ''@'' \<notin> set ''john.site.com''"
    by simp
  have b: "''@domain'' \<in> set common_false_positives" "contains ''@domain'' (lower ''Bob@Domain.org'')"
    by code_simp+
  have c: "phone_shaped ''123-456-7890''" "contains ''123-456-7890'' (local_part ''x123-456-7890y@b.co'')"
    by code_simp+
  have d: "\<not> re_match pattern ''a@b''"
    by code_simp
  from validate_email_rules [of "''john.site.com''"] a
  have 1: "\<not> validate_email ''john.site.com''" by blast
  from validate_email_rules [of "''Bob@Domain.org''" "''@domain''"] b
  have 2: "\<not> validate_email ''Bob@Domain.org''" by blast
  from validate_email_rules [of "''x123-456-7890y@b.co''" _ "''123-456-7890''"] c
  have 3: "\<not> validate_email ''x123-456-7890y@b.co''" by blast
  from validate_email_rules [of "''a@b''"] d
  have 4: "\<not> validate_email ''a@b''" by blast
  from a b c d 1 2 3 4 show ?thesis by blast
qed

subsection \<open>Worker sizing\<close>

text \<open>
  C7. With batch size \<open>n\<close> and \<open>c\<close> CPUs the number of workers is \<open>min(c, 4, n)\<close> up to
  100 rows, \<open>min(c, 8, n)\<close> up to 300 rows and \<open>min(2c, 16, n)\<close> above; with 8 CPUs that
  is 4 workers for 50 rows, 8 for 150 and 16 for 500.
\<close>

theorem get_optimal_workers_policy:
  "get_optimal_workers c n =
     (if n \<le> 100 then Min {c, 4, n} else if n \<le> 300 then Min {c, 8, n} else Min {2 * c, 16, n})
   \<and> get_optimal_workers 8 50 = 4 \<and> get_optimal_workers 8 150 = 8
   \<and> get_optimal_workers 8 500 = 16"
  by (simp add: get_optimal_workers_def min3_def mult.commute)

subsection \<open>The batch boundary\<close>

text \<open>
  C4. The worker returns a collection of emails for every input and every behaviour
  of the network: a crawl of a string seed never raises, and an exception that does
  leave \<^verbatim>\<open>find_emails\<close> becomes the empty collection. So does every row of a batch.
\<close>

theorem worker_never_raises:
  "(\<exists>emails. worker ev url = Inr emails)
   \<and> (\<exists>emails. find_emails ev (Str s) max_subpages max_retries delay = Inr emails)
   \<and> (find_emails ev url 10 2 (1, 3) = Inl e \<longrightarrow> worker ev url = Inr {})
   \<and> length (process_urls_in_parallel world urls) = length urls
   \<and> (\<forall>r \<in> set (process_urls_in_parallel world urls). \<exists>emails. r = Inr emails)"
proof -
  have w: "\<exists>emails. worker v u = Inr emails" for v u
    by (simp add: worker_def split: sum.split)
  have "\<exists>emails. r = Inr emails" if "r \<in> set (process_urls_in_parallel world urls)" for r
    using that w by (auto simp: process_urls_in_parallel_def)
  then show ?thesis
    using w by (simp add: worker_def find_emails_def process_urls_in_parallel_def)
qed

theorem worker_never_raises_witness:
  "find_emails example_env Not_str 10 2 (1, 3) = Inl AttributeError
   \<and> worker example_env Not_str = Inr {}
   \<and> process_urls_in_parallel (\<lambda>i. down_env) [Not_str, Str ''s.io''] = [Inr {}, Inr {}]"
proof -
  have a: "find_emails example_env Not_str 10 2 (1, 3) = Inl AttributeError"
    by (simp add: find_emails_def)
  have b: "process_urls_in_parallel (\<lambda>i. down_env) [Not_str, Str ''s.io''] = [Inr {}, Inr {}]"
    by code_simp
  from worker_never_raises [of example_env Not_str "''s.io''" 10 2 "(1, 3)" AttributeError
      "\<lambda>i. down_env" "[Not_str, Str ''s.io'']"] a b
  show ?thesis by simp
qed

subsection \<open>Traces\<close>

lemma requested_append [simp]: "requested (xs @ ys) = requested xs @ requested ys"
  by (simp add: requested_def)

lemma requested_Nil [simp]: "requested [] = []"
  by (simp add: requested_def)

lemma requested_Cons [simp]:
  "requested (e # es) = (case e of Get u \<Rightarrow> [u] | _ \<Rightarrow> []) @ requested es"
  by (simp add: requested_def)

lemma subpages_scraped_append [simp]:
  "subpages_scraped (xs @ ys) = subpages_scraped xs @ subpages_scraped ys"
  by (simp add: subpages_scraped_def)

lemma subpages_scraped_Nil [simp]: "subpages_scraped [] = []"
  by (simp add: subpages_scraped_def)

lemma subpages_scraped_Cons [simp]:
  "subpages_scraped (e # es) =
     (case e of Print_scraping_subpage k m u \<Rightarrow> [u] | _ \<Rightarrow> []) @ subpages_scraped es"
  by (simp add: subpages_scraped_def)

lemma backoffs_append [simp]: "backoffs (xs @ ys) = backoffs xs @ backoffs ys"
  by (simp add: backoffs_def)

lemma backoffs_Nil [simp]: "backoffs [] = []"
  by (simp add: backoffs_def)

lemma backoffs_Cons [simp]:
  "backoffs (e # es) = (case e of Sleep d \<Rightarrow> [d] | _ \<Rightarrow> []) @ backoffs es"
  by (simp add: backoffs_def)

lemma trace_emit [simp]: "trace (emit e st) = trace st @ [e]"
  by (simp add: emit_def)

lemma visited_emit [simp]: "visited_urls (emit e st) = visited_urls st"
  by (simp add: emit_def)

lemma attempts_effects:
  "\<exists>k evs. k \<le> length as \<and> ((\<forall>h. \<exists>sp. respond ev h url = Page sp) \<longrightarrow> k \<le> 1)
     \<and> trace (snd (attempts ev url m as st)) = trace st @ evs
     \<and> requested evs = replicate k url \<and> subpages_scraped evs = []
     \<and> visited_urls (snd (attempts ev url m as st)) = visited_urls st"
proof (induction as arbitrary: st)
  case Nil
  show ?case by (rule exI [of _ 0]) simp
next
  case (Cons a as)
  show ?case
  proof (cases "respond ev (trace st) url")
    case (Page sp)
    then show ?thesis
      by (intro exI [of _ 1] exI [of _ "[Get url]"]) (simp split: sum.split)
  next
    case (Raises e)
    show ?thesis
    proof (cases "e = RequestException")
      case False
      with Raises show ?thesis
        by (intro exI [of _ 1] exI [of _ "[Get url]"]) simp
    next
      case True
      define st2 where "st2 = (if a < m - 1
          then emit (Sleep (2 * (a + 1))) (emit (Print_attempt_failed (a + 1) m url) (emit (Get url) st))
          else emit (Print_attempt_failed (a + 1) m url) (emit (Get url) st))"
      have step: "attempts ev url m (a # as) st = attempts ev url m as st2"
        using Raises True by (simp add: st2_def Let_def)
      obtain pre where pre: "trace st2 = trace st @ pre" "requested pre = [url]"
        "subpages_scraped pre = []" "visited_urls st2 = visited_urls st"
        by (cases "a < m - 1") (simp_all add: st2_def)
      have bad: "\<not> (\<forall>h. \<exists>sp. respond ev h url = Page sp)"
        using Raises by (metis response.distinct(1))
      from Cons.IH [of st2] obtain k evs where
        k: "k \<le> length as" "trace (snd (attempts ev url m as st2)) = trace st2 @ evs"
           "requested evs = replicate k url" "subpages_scraped evs = []"
           "visited_urls (snd (attempts ev url m as st2)) = visited_urls st2"
        by blast
      show ?thesis
        unfolding step using pre k bad
        by (intro exI [of _ "Suc k"] exI [of _ "pre @ evs"]) (auto simp del: attempts.simps)
    qed
  qed
qed

lemma length_py_range [simp]: "length (py_range m) = nat m"
  by (simp add: py_range_def)

lemma process_url_effects:
  "\<exists>k evs. k \<le> nat m \<and> ((\<forall>h. \<exists>sp. respond ev h url = Page sp) \<longrightarrow> k \<le> 1)
     \<and> (url \<in> visited_urls st \<longrightarrow> k = 0)
     \<and> trace (snd (process_url ev url m st)) = trace st @ evs
     \<and> requested evs = replicate k url \<and> subpages_scraped evs = []
     \<and> visited_urls (snd (process_url ev url m st)) = insert url (visited_urls st)"
proof (cases "url \<in> visited_urls st")
  case True
  then show ?thesis
    by (intro exI [of _ 0] exI [of _ "[]"]) (auto simp: process_url_def)
next
  case False
  let ?st = "st\<lparr>visited_urls := insert url (visited_urls st)\<rparr>"
  from attempts_effects [of "py_range m" ev url m ?st] obtain k evs where
    "k \<le> nat m" "(\<forall>h. \<exists>sp. respond ev h url = Page sp) \<longrightarrow> k \<le> 1"
    "trace (snd (attempts ev url m (py_range m) ?st)) = trace ?st @ evs"
    "requested evs = replicate k url" "subpages_scraped evs = []"
    "visited_urls (snd (attempts ev url m (py_range m) ?st)) = visited_urls ?st"
    by auto
  with False show ?thesis
    by (intro exI [of _ k] exI [of _ evs]) (simp add: process_url_def)
qed

lemma drain_Cons_cases:
  fixes ev ms mr d u rest pv E st
  defines "st1 \<equiv> emit (Print_scraping_subpage pv ms u) (emit (Sleep_uniform (fst d) (snd d)) st)"
  obtains
    (stop) "\<not> pv < ms" "drain ev ms mr d (u # rest) pv E st = (E, pv, st)"
  | (skip) "pv < ms" "u \<in> visited_urls st"
      "drain ev ms mr d (u # rest) pv E st = drain ev ms mr d rest pv E st"
  | (raise) e st2 where "pv < ms" "u \<notin> visited_urls st"
      "process_url ev u mr st1 = (Inl e, st2)"
      "drain ev ms mr d (u # rest) pv E st = (E, pv, emit (Print_error e) st2)"
  | (visit) emails subpages st2 where "pv < ms" "u \<notin> visited_urls st"
      "process_url ev u mr st1 = (Inr (emails, subpages), st2)"
      "drain ev ms mr d (u # rest) pv E st = drain ev ms mr d rest (pv + 1) (E \<union> emails) st2"
proof (cases "pv < ms")
  case False
  then show ?thesis using stop by simp
next
  case lt: True
  show ?thesis
  proof (cases "u \<in> visited_urls st")
    case True
    then show ?thesis using skip lt by simp
  next
    case False
    obtain r st2 where p: "process_url ev u mr st1 = (r, st2)"
      by (cases "process_url ev u mr st1")
    show ?thesis
    proof (cases r)
      case (Inl e)
      with p lt False show ?thesis
        using raise [of e st2] by (simp add: st1_def Let_def)
    next
      case (Inr pr)
      obtain emails subpages where "pr = (emails, subpages)" by (cases pr)
      with Inr p lt False show ?thesis
        using visit [of emails subpages st2] by (simp add: st1_def Let_def)
    qed
  qed
qed

subsection \<open>A fetch that never succeeds\<close>

lemma emit_emits: "emit e (emits evs st) = emits (evs @ [e]) st"
  by (simp add: emit_def emits_def)

lemma emit_as_emits: "emit e st = emits [e] st"
  by (simp add: emit_def emits_def)

lemma emits_emits: "emits ys (emits xs st) = emits (xs @ ys) st"
  by (simp add: emits_def)

lemma trace_emits [simp]: "trace (emits evs st) = trace st @ evs"
  by (simp add: emits_def)

lemma attempts_all_fail:
  assumes fail: "\<forall>h. respond ev h url = Raises RequestException"
  shows "attempts ev url m [a .. m - 1] st =
     (Inr ({}, []),
      emits (concat (map (\<lambda>k. [Get url, Print_attempt_failed k m url] @
                          (if k < m then [Sleep (2 * k)] else [])) [a + 1 .. m])
             @ [Print_failed_to_retrieve url m]) st)"
proof (induction "nat (m - a)" arbitrary: a st)
  case 0
  then have "[a .. m - 1] = []" "[a + 1 .. m] = []" by simp_all
  then show ?case by (simp add: emit_as_emits)
next
  case (Suc n)
  then have le: "a \<le> m - 1" and n: "n = nat (m - (a + 1))" by linarith+
  have l1: "[a .. m - 1] = a # [a + 1 .. m - 1]"
    using le by (simp add: upto_rec1)
  have l2: "[a + 1 .. m] = (a + 1) # [a + 1 + 1 .. m]"
    using le by (simp add: upto_rec1)
  show ?case
    unfolding l1 l2
    using fail Suc.hyps(1) [OF n]
    by (simp add: Let_def emit_as_emits emits_emits)
qed

lemma requested_failed_attempts_aux:
  "requested (concat (map (\<lambda>k. [Get url, Print_attempt_failed k m url] @
       (if k < m then [Sleep (2 * k)] else [])) [a .. m])) = replicate (nat (m - a + 1)) url"
proof (induction "nat (m - a + 1)" arbitrary: a)
  case 0
  then have "[a .. m] = []" by simp
  with 0 show ?case by simp
next
  case (Suc n)
  then have le: "a \<le> m" and n: "n = nat (m - (a + 1) + 1)" by linarith+
  have l: "[a .. m] = a # [a + 1 .. m]"
    using le by (simp add: upto_rec1)
  have "nat (m - a + 1) = Suc (nat (m - (a + 1) + 1))"
    using le by linarith
  then show ?case
    unfolding l using Suc.hyps(1) [OF n] by simp
qed

lemma backoffs_failed_attempts_aux:
  "backoffs (concat (map (\<lambda>k. [Get url, Print_attempt_failed k m url] @
       (if k < m then [Sleep (2 * k)] else [])) [a .. m])) = map (\<lambda>k. 2 * k) [a .. m - 1]"
proof (induction "nat (m - a + 1)" arbitrary: a)
  case 0
  then have "[a .. m] = []" "[a .. m - 1] = []" by simp_all
  then show ?case by simp
next
  case (Suc n)
  then have le: "a \<le> m" and n: "n = nat (m - (a + 1) + 1)" by linarith+
  have l: "[a .. m] = a # [a + 1 .. m]"
    using le by (simp add: upto_rec1)
  show ?case
  proof (cases "a < m")
    case True
    then have l': "[a .. m - 1] = a # [a + 1 .. m - 1]"
      by (simp add: upto_rec1)
    show ?thesis
      unfolding l l' using Suc.hyps(1) [OF n] True by simp
  next
    case False
    with le have "a = m" by simp
    then show ?thesis by (simp add: upto_rec1)
  qed
qed

lemma process_url_all_fail:
  assumes "\<forall>h. respond ev h url = Raises RequestException" and "url \<notin> visited_urls st"
  shows "process_url ev url max_retries st =
           (Inr ({}, []), st\<lparr>visited_urls := insert url (visited_urls st),
                             trace := trace st @ failed_attempts url max_retries\<rparr>)"
  using assms(2) attempts_all_fail [OF assms(1), of max_retries 0]
  by (simp add: process_url_def py_range_def failed_attempts_def emits_def)

lemma requested_failed_attempts:
  "requested (failed_attempts url max_retries) = replicate (nat max_retries) url"
  using requested_failed_attempts_aux [of url max_retries 1]
  by (simp add: failed_attempts_def)

lemma backoffs_failed_attempts:
  "backoffs (failed_attempts url max_retries) = map (\<lambda>k. 2 * k) [1 .. max_retries - 1]"
  using backoffs_failed_attempts_aux [of url max_retries 1]
  by (simp add: failed_attempts_def)

text \<open>
  C3, as amended. When every request to a URL fails with a \<^verbatim>\<open>RequestException\<close>,
  \<^verbatim>\<open>process_url\<close> makes exactly \<open>max_retries\<close> attempts in total (not
  \<open>1 + max_retries\<close>), sleeps \<open>2 * k\<close> seconds after the failed attempt \<open>k\<close> for every
  \<open>k < max_retries\<close>, and then returns no emails and no subpages, without raising.
\<close>

theorem process_url_gives_up_after_max_retries_attempts:
  assumes "\<forall>h. respond ev h url = Raises RequestException" and "url \<notin> visited_urls st"
  shows "process_url ev url max_retries st =
           (Inr ({}, []), st\<lparr>visited_urls := insert url (visited_urls st),
                             trace := trace st @ failed_attempts url max_retries\<rparr>)
         \<and> requested (failed_attempts url max_retries) = replicate (nat max_retries) url
         \<and> backoffs (failed_attempts url max_retries) = map (\<lambda>k. 2 * k) [1 .. max_retries - 1]"
proof (intro conjI)
  show "process_url ev url max_retries st =
          (Inr ({}, []), st\<lparr>visited_urls := insert url (visited_urls st),
                            trace := trace st @ failed_attempts url max_retries\<rparr>)"
    using assms by (rule process_url_all_fail)
  show "requested (failed_attempts url max_retries) = replicate (nat max_retries) url"
    by (rule requested_failed_attempts)
  show "backoffs (failed_attempts url max_retries) = map (\<lambda>k. 2 * k) [1 .. max_retries - 1]"
    by (rule backoffs_failed_attempts)
qed

theorem process_url_gives_up_after_max_retries_attempts_witness:
  "(\<forall>h. respond down_env h ''https://s.io'' = Raises RequestException)
   \<and> ''https://s.io'' \<notin> visited_urls start
   \<and> process_url down_env ''https://s.io'' 3 start =
       (Inr ({}, []), \<lparr>visited_urls = {''https://s.io''},
          trace = [Get ''https://s.io'', Print_attempt_failed 1 3 ''https://s.io'', Sleep 2,
                   Get ''https://s.io'', Print_attempt_failed 2 3 ''https://s.io'', Sleep 4,
                   Get ''https://s.io'', Print_attempt_failed 3 3 ''https://s.io'',
                   Print_failed_to_retrieve ''https://s.io'' 3]\<rparr>)"
proof -
  have a: "\<forall>h. respond down_env h ''https://s.io'' = Raises RequestException"
    by (simp add: down_env_def)
  have b: "''https://s.io'' \<notin> visited_urls start"
    by (simp add: start_def)
  have c: "failed_attempts ''https://s.io'' 3 =
      [Get ''https://s.io'', Print_attempt_failed 1 3 ''https://s.io'', Sleep 2,
       Get ''https://s.io'', Print_attempt_failed 2 3 ''https://s.io'', Sleep 4,
       Get ''https://s.io'', Print_attempt_failed 3 3 ''https://s.io'',
       Print_failed_to_retrieve ''https://s.io'' 3]"
    by code_simp
  from process_url_gives_up_after_max_retries_attempts [OF a b, of 3] a b c
  show ?thesis by (simp add: start_def)
qed

text \<open>
  C3 as stated fails: with \<open>max_retries = 2\<close> and every request failing, the fetch
  gives up after 2 attempts, not after \<open>1 + 2\<close>.
\<close>

theorem attempts_are_not_one_plus_max_retries:
  "fst (process_url down_env ''https://s.io'' 2 start) = Inr ({}, [])
   \<and> length (requested (trace (snd (process_url down_env ''https://s.io'' 2 start)))) \<noteq> 1 + 2"
  by code_simp

subsection \<open>One fetch per URL\<close>

lemma count_list_replicate: "count_list (replicate k x) y = (if y = x then k else 0)"
  by (induction k) auto

lemma visit_step_inv:
  assumes inv: "fetch_inv B seed st"
    and fresh: "u \<notin> visited_urls st"
    and B: "nat mr \<le> B \<or> (all_ok ev \<and> 1 \<le> B)"
  shows "fetch_inv B seed (snd (process_url ev u mr
           (emit (Print_scraping_subpage pv ms u) (emit (Sleep_uniform lo hi) st))))"
proof -
  let ?st1 = "emit (Print_scraping_subpage pv ms u) (emit (Sleep_uniform lo hi) st)"
  from process_url_effects [of mr ev u ?st1] obtain k evs where
    k: "k \<le> nat mr" "(\<forall>h. \<exists>sp. respond ev h u = Page sp) \<longrightarrow> k \<le> 1"
    and tr: "trace (snd (process_url ev u mr ?st1)) = trace ?st1 @ evs"
    and rq: "requested evs = replicate k u" and sc: "subpages_scraped evs = []"
    and vs: "visited_urls (snd (process_url ev u mr ?st1)) = insert u (visited_urls ?st1)"
    by blast
  have kB: "k \<le> B"
    using k B by (auto simp: all_ok_def)
  have zero: "count_list (requested (trace st)) u = 0"
    using inv fresh by (auto simp: fetch_inv_def dest: spec [of _ u])
  have notin: "u \<notin> set (subpages_scraped (trace st))"
    using inv fresh by (auto simp: fetch_inv_def)
  have seed: "seed \<noteq> u"
    using inv fresh by (auto simp: fetch_inv_def)
  have cnt: "count_list (requested (trace st)) v \<le> (if v \<in> visited_urls st then B else 0)" for v
    using inv by (simp add: fetch_inv_def)
  have cnt1: "count_list (requested (trace st)) v \<le> B" if "v \<in> visited_urls st" for v
    using cnt [of v] that by simp
  have cnt0: "count_list (requested (trace st)) v = 0" if "v \<notin> visited_urls st" for v
    using cnt [of v] that by simp
  show ?thesis
    unfolding fetch_inv_def tr vs
    using inv kB zero notin seed cnt1 cnt0
    by (auto simp: fetch_inv_def rq sc count_list_replicate)
qed

lemma drain_inv:
  assumes "fetch_inv B seed st" and "nat mr \<le> B \<or> (all_ok ev \<and> 1 \<le> B)"
  shows "fetch_inv B seed (snd (snd (drain ev ms mr d fr pv E st)))"
  using assms
proof (induction fr arbitrary: pv E st)
  case Nil
  then show ?case by simp
next
  case (Cons u rest)
  show ?case
  proof (cases rule: drain_Cons_cases [of pv ms ev mr d u rest E st])
    case stop
    with Cons.prems show ?thesis by simp
  next
    case skip
    with Cons show ?thesis by simp
  next
    case (raise e st2)
    have "fetch_inv B seed st2"
      using visit_step_inv [OF Cons.prems(1) raise(2) Cons.prems(2), of pv ms "fst d" "snd d"] raise(3)
      by simp
    then have "fetch_inv B seed (emit (Print_error e) st2)"
      by (simp add: fetch_inv_def)
    with raise show ?thesis by simp
  next
    case (visit emails subpages st2)
    have "fetch_inv B seed st2"
      using visit_step_inv [OF Cons.prems(1) visit(2) Cons.prems(2), of pv ms "fst d" "snd d"] visit(3)
      by simp
    with visit Cons show ?thesis by simp
  qed
qed

lemma crawl_inv:
  assumes "nat mr \<le> B \<or> (all_ok ev \<and> 1 \<le> B)"
  shows "fetch_inv B (normalize_seed base) (snd (snd (crawl ev base ms mr d)))"
proof -
  let ?seed = "normalize_seed base"
  let ?st0 = "\<lparr>visited_urls = {}, trace = [Print_scraping_base ?seed]\<rparr>"
  obtain r st where p: "process_url ev ?seed mr ?st0 = (r, st)"
    by (cases "process_url ev ?seed mr ?st0")
  from process_url_effects [of mr ev ?seed ?st0] obtain k evs where
    k: "k \<le> nat mr" "(\<forall>h. \<exists>sp. respond ev h ?seed = Page sp) \<longrightarrow> k \<le> 1"
    and tr: "trace st = trace ?st0 @ evs"
    and rq: "requested evs = replicate k ?seed" and sc: "subpages_scraped evs = []"
    and vs: "visited_urls st = {?seed}"
    using p by auto
  have kB: "k \<le> B"
    using k assms by (auto simp: all_ok_def)
  have inv: "fetch_inv B ?seed st"
    using kB by (simp add: fetch_inv_def tr vs rq sc count_list_replicate)
  show ?thesis
  proof (cases r)
    case (Inl e)
    with p inv show ?thesis
      by (simp add: crawl_def Let_def fetch_inv_def)
  next
    case (Inr pr)
    obtain emails subpages where "pr = (emails, subpages)" by (cases pr)
    with Inr p drain_inv [OF inv assms] show ?thesis
      by (simp add: crawl_def Let_def)
  qed
qed

text \<open>
  C8. In one job, whatever the network does and in whatever order, and however often,
  the frontier lists the discovered URLs: a URL is requested at most \<open>max_retries\<close>
  times (the attempts of one fetch), and at most once when no request fails; no
  subpage is scraped twice, and the seed is never scraped as a subpage.
\<close>

theorem url_fetched_at_most_once:
  "count_list (requested (trace_of (crawl ev base ms mr d))) u \<le> nat mr
   \<and> ((\<forall>h v. \<exists>sp. respond ev h v = Page sp) \<longrightarrow>
        count_list (requested (trace_of (crawl ev base ms mr d))) u \<le> 1)
   \<and> distinct (subpages_scraped (trace_of (crawl ev base ms mr d)))
   \<and> normalize_seed base \<notin> set (subpages_scraped (trace_of (crawl ev base ms mr d)))"
proof -
  have a: "count_list (requested (trace_of (crawl ev base ms mr d))) u \<le> nat mr"
    using crawl_inv [of mr "nat mr" ev base ms d]
    by (auto simp: fetch_inv_def trace_of_def dest: spec [of _ u] split: if_splits)
  have b: "count_list (requested (trace_of (crawl ev base ms mr d))) u \<le> 1"
    if "\<forall>h v. \<exists>sp. respond ev h v = Page sp"
    using crawl_inv [of mr 1 ev base ms d] that
    by (auto simp: fetch_inv_def trace_of_def all_ok_def dest: spec [of _ u] split: if_splits)
  have c: "distinct (subpages_scraped (trace_of (crawl ev base ms mr d)))"
    "normalize_seed base \<notin> set (subpages_scraped (trace_of (crawl ev base ms mr d)))"
    using crawl_inv [of mr "nat mr" ev base ms d]
    by (auto simp: fetch_inv_def trace_of_def)
  show ?thesis using a b c by blast
qed

theorem url_fetched_at_most_once_witness:
  "(\<forall>h v. \<exists>sp. respond dup_env h v = Page sp)
   \<and> take 3 (seed_frontier dup_env ''s.io'' 2) =
        [''https://s.io/about0'', ''https://s.io/about0'', ''https://s.io/about1'']
   \<and> requested (trace_of (crawl dup_env ''s.io'' 3 2 (1, 3))) =
        [''https://s.io'', ''https://s.io/about0'', ''https://s.io/about1'']
   \<and> count_list (requested (trace_of (crawl dup_env ''s.io'' 3 2 (1, 3)))) ''https://s.io/about0'' \<le> 1"
proof -
  have a: "\<forall>h v. \<exists>sp. respond dup_env h v = Page sp"
    by (simp add: dup_env_def example_env_def)
  have b: "take 3 (seed_frontier dup_env ''s.io'' 2) =
        [''https://s.io/about0'', ''https://s.io/about0'', ''https://s.io/about1'']"
    by code_simp
  have c: "requested (trace_of (crawl dup_env ''s.io'' 3 2 (1, 3))) =
        [''https://s.io'', ''https://s.io/about0'', ''https://s.io/about1'']"
    by code_simp
  from url_fetched_at_most_once [of dup_env "''s.io''" 3 2 "(1, 3)" "''https://s.io/about0''"] a
  have "count_list (requested (trace_of (crawl dup_env ''s.io'' 3 2 (1, 3)))) ''https://s.io/about0'' \<le> 1"
    by blast
  with a b c show ?thesis by blast
qed

subsection \<open>The frontier\<close>

lemma drain_effects:
  "\<exists>evs. trace (snd (snd (drain ev ms mr d fr pv E st))) = trace st @ evs
     \<and> set (requested evs) \<subseteq> set fr \<and> set (subpages_scraped evs) \<subseteq> set fr
     \<and> int (length (subpages_scraped evs)) \<le> max 0 (ms - pv)"
proof (induction fr arbitrary: pv E st)
  case Nil
  show ?case by (rule exI [of _ "[]"]) simp
next
  case (Cons u rest)
  let ?st1 = "emit (Print_scraping_subpage pv ms u) (emit (Sleep_uniform (fst d) (snd d)) st)"
  show ?case
  proof (cases rule: drain_Cons_cases [of pv ms ev mr d u rest E st])
    case stop
    then show ?thesis by (intro exI [of _ "[]"]) simp
  next
    case skip
    from Cons.IH [of pv E st] obtain evs where
      "trace (snd (snd (drain ev ms mr d rest pv E st))) = trace st @ evs"
      "set (requested evs) \<subseteq> set rest" "set (subpages_scraped evs) \<subseteq> set rest"
      "int (length (subpages_scraped evs)) \<le> max 0 (ms - pv)"
      by blast
    with skip show ?thesis
      by (intro exI [of _ evs]) auto
  next
    case (raise e st2)
    from process_url_effects [of mr ev u ?st1] raise(3) obtain k evs where
      e: "trace st2 = trace ?st1 @ evs" "requested evs = replicate k u" "subpages_scraped evs = []"
      by auto
    show ?thesis
      using raise e
      by (intro exI [of _ "[Sleep_uniform (fst d) (snd d), Print_scraping_subpage pv ms u] @ evs
            @ [Print_error e]"]) auto
  next
    case (visit emails subpages st2)
    from process_url_effects [of mr ev u ?st1] visit(3) obtain k evs where
      e: "trace st2 = trace ?st1 @ evs" "requested evs = replicate k u" "subpages_scraped evs = []"
      by auto
    from Cons.IH [of "pv + 1" "E \<union> emails" st2] obtain evs' where
      e': "trace (snd (snd (drain ev ms mr d rest (pv + 1) (E \<union> emails) st2))) = trace st2 @ evs'"
      "set (requested evs') \<subseteq> set rest" "set (subpages_scraped evs') \<subseteq> set rest"
      "int (length (subpages_scraped evs')) \<le> max 0 (ms - (pv + 1))"
      by blast
    show ?thesis
      using visit e e'
      by (intro exI [of _ "[Sleep_uniform (fst d) (snd d), Print_scraping_subpage pv ms u] @ evs
            @ evs'"]) auto
  qed
qed

lemma crawl_effects:
  "set (requested (trace_of (crawl ev base ms mr d)))
     \<subseteq> insert (normalize_seed base) (set (seed_frontier ev base mr))
   \<and> set (subpages_scraped (trace_of (crawl ev base ms mr d))) \<subseteq> set (seed_frontier ev base mr)
   \<and> int (length (subpages_scraped (trace_of (crawl ev base ms mr d)))) \<le> max 0 (ms - 1)"
proof -
  let ?seed = "normalize_seed base"
  let ?st0 = "\<lparr>visited_urls = {}, trace = [Print_scraping_base ?seed]\<rparr>"
  obtain r st where p: "process_url ev ?seed mr ?st0 = (r, st)"
    by (cases "process_url ev ?seed mr ?st0")
  from process_url_effects [of mr ev ?seed ?st0] obtain k evs where
    tr: "trace st = trace ?st0 @ evs"
    and rq: "requested evs = replicate k ?seed" and sc: "subpages_scraped evs = []"
    using p by auto
  show ?thesis
  proof (cases r)
    case (Inl e)
    with p tr rq sc show ?thesis
      by (auto simp: crawl_def Let_def trace_of_def)
  next
    case (Inr pr)
    obtain emails subpages where pr: "pr = (emails, subpages)" by (cases pr)
    have sf: "seed_frontier ev base mr = subpages"
      using p Inr pr by (simp add: seed_frontier_def)
    from drain_effects [of ev ms mr d subpages 1 emails st] obtain evs' where
      "trace (snd (snd (drain ev ms mr d subpages 1 emails st))) = trace st @ evs'"
      "set (requested evs') \<subseteq> set subpages" "set (subpages_scraped evs') \<subseteq> set subpages"
      "int (length (subpages_scraped evs')) \<le> max 0 (ms - 1)"
      by blast
    with p Inr pr tr rq sc sf show ?thesis
      by (auto simp: crawl_def Let_def trace_of_def)
  qed
qed

lemma subpage_loop_links:
  "subpage_loop ev base nl as acc = Inr found \<Longrightarrow> u \<in> set found \<Longrightarrow>
     u \<in> set acc \<or> (\<exists>a \<in> set as. urljoin ev base (href a) = Inr u)"
proof (induction as arbitrary: acc)
  case Nil
  then show ?case by simp
next
  case (Cons a as)
  from Cons.prems(1) obtain abs_url parsed acc' where
    j: "urljoin ev base (href a) = Inr abs_url"
    and l: "subpage_loop ev base nl as acc' = Inr found"
    and acc': "acc' = set_add abs_url acc \<or> acc' = acc"
    by (auto simp: Let_def split: sum.splits if_splits)
  from Cons.IH [OF l Cons.prems(2)]
  have "u \<in> set acc' \<or> (\<exists>a \<in> set as. urljoin ev base (href a) = Inr u)" .
  with acc' j show ?case
    by (auto simp: set_add_def split: if_splits)
qed

lemma find_subpage_urls_links:
  assumes "find_subpage_urls ev sp base_url = Inr found" and "u \<in> set found"
  shows "\<exists>a \<in> set (a_tags sp). urljoin ev base_url (href a) = Inr u"
proof -
  from assms(1) obtain nl where "subpage_loop ev base_url nl (a_tags sp) [] = Inr found"
    by (auto simp: find_subpage_urls_def split: sum.splits)
  from subpage_loop_links [OF this assms(2)] show ?thesis by simp
qed

lemma attempts_subpages:
  "attempts ev url m as st = (Inr (emails, subpages), st') \<Longrightarrow>
     subpages = [] \<or> (\<exists>h sp found. respond ev h url = Page sp
        \<and> find_subpage_urls ev sp url = Inr found \<and> subpages = set_order ev found)"
proof (induction as arbitrary: st)
  case Nil
  then show ?case by simp
next
  case (Cons a as)
  show ?case
  proof (cases "respond ev (trace st) url")
    case (Page sp)
    with Cons.prems show ?thesis
      by (auto split: sum.splits)
  next
    case (Raises e)
    with Cons show ?thesis
      by (auto simp: Let_def split: if_splits)
  qed
qed

lemma seed_frontier_links:
  assumes "\<forall>xs. set (set_order ev xs) \<subseteq> set xs" and "u \<in> set (seed_frontier ev base mr)"
  shows "\<exists>h sp a. respond ev h (normalize_seed base) = Page sp \<and> a \<in> set (a_tags sp)
           \<and> urljoin ev (normalize_seed base) (href a) = Inr u"
proof -
  let ?seed = "normalize_seed base"
  let ?st0 = "\<lparr>visited_urls = {}, trace = [Print_scraping_base ?seed]\<rparr>"
  obtain r st where p: "process_url ev ?seed mr ?st0 = (r, st)"
    by (cases "process_url ev ?seed mr ?st0")
  show ?thesis
  proof (cases r)
    case (Inl e)
    with p assms(2) show ?thesis by (simp add: seed_frontier_def)
  next
    case (Inr pr)
    obtain emails subpages where pr: "pr = (emails, subpages)" by (cases pr)
    have sf: "seed_frontier ev base mr = subpages"
      using p Inr pr by (simp add: seed_frontier_def)
    have "attempts ev ?seed mr (py_range mr) (?st0\<lparr>visited_urls := insert ?seed (visited_urls ?st0)\<rparr>)
            = (Inr (emails, subpages), st)"
      using p Inr pr by (simp add: process_url_def)
    from attempts_subpages [OF this] sf assms(2) obtain h sp found where
      h: "respond ev h ?seed = Page sp" "find_subpage_urls ev sp ?seed = Inr found"
         "subpages = set_order ev found"
      by auto
    have "u \<in> set found"
      using assms sf h by auto
    with find_subpage_urls_links [OF h(2)] h(1) show ?thesis by blast
  qed
qed

text \<open>
  C9. Every URL a job requests is the seed or a URL of the frontier built from the seed
  page, and so is every subpage it scrapes; what a subpage links to is never added.
  When the iteration of the set of discovered URLs invents nothing, every subpage
  scraped is the target of a link of a page the seed URL returned: one hop from the
  seed.
\<close>

theorem only_seed_links_are_visited:
  "set (requested (trace_of (crawl ev base ms mr d)))
     \<subseteq> insert (normalize_seed base) (set (seed_frontier ev base mr))
   \<and> set (subpages_scraped (trace_of (crawl ev base ms mr d))) \<subseteq> set (seed_frontier ev base mr)
   \<and> ((\<forall>xs. set (set_order ev xs) \<subseteq> set xs) \<longrightarrow>
        (\<forall>u \<in> set (subpages_scraped (trace_of (crawl ev base ms mr d))).
           \<exists>h sp a. respond ev h (normalize_seed base) = Page sp \<and> a \<in> set (a_tags sp)
             \<and> urljoin ev (normalize_seed base) (href a) = Inr u))"
  using crawl_effects [of ev base ms mr d] seed_frontier_links [of ev _ base mr]
  by blast

theorem only_seed_links_are_visited_witness:
  "(\<forall>xs. set (set_order small_env xs) \<subseteq> set xs)
   \<and> find_subpage_urls small_env sub_page ''https://s.io/about0'' = Inr [''https://s.io/contact'']
   \<and> crawl small_env ''s.io'' 10 2 (1, 3) =
       ({''b@s.io''}, 2,
        \<lparr>visited_urls = {''https://s.io/about0'', ''https://s.io''},
         trace = [Print_scraping_base ''https://s.io'', Get ''https://s.io'', Sleep_uniform 1 3,
           Print_scraping_subpage 1 10 ''https://s.io/about0'', Get ''https://s.io/about0'']\<rparr>)
   \<and> ''https://s.io/contact'' \<notin> set (requested (trace_of (crawl small_env ''s.io'' 10 2 (1, 3))))"
proof -
  have a: "\<forall>xs. set (set_order small_env xs) \<subseteq> set xs"
    by (simp add: small_env_def example_env_def)
  have b: "find_subpage_urls small_env sub_page ''https://s.io/about0'' = Inr [''https://s.io/contact'']"
    by code_simp
  have c: "crawl small_env ''s.io'' 10 2 (1, 3) =
       ({''b@s.io''}, 2,
        \<lparr>visited_urls = {''https://s.io/about0'', ''https://s.io''},
         trace = [Print_scraping_base ''https://s.io'', Get ''https://s.io'', Sleep_uniform 1 3,
           Print_scraping_subpage 1 10 ''https://s.io/about0'', Get ''https://s.io/about0'']\<rparr>)"
    by code_simp
  have d: "seed_frontier small_env ''s.io'' 2 = [''https://s.io/about0'']"
    by code_simp
  have e: "normalize_seed ''s.io'' = ''https://s.io''"
    by code_simp
  from only_seed_links_are_visited [of small_env "''s.io''" 10 2 "(1, 3)"] d e
  have "''https://s.io/contact'' \<notin> set (requested (trace_of (crawl small_env ''s.io'' 10 2 (1, 3))))"
    by auto
  with a b c show ?thesis by blast
qed

subsection \<open>The subpage budget\<close>



lemma subpage_loop_returns:
  assumes "\<And>b h. returns (urljoin ev b h)" and "\<And>u. returns (urlparse ev u)"
  shows "returns (subpage_loop ev base nl as acc)"
proof (induction as arbitrary: acc)
  case Nil
  show ?case by (simp add: returns_def)
next
  case (Cons a as)
  from assms(1) [of base "href a"] obtain abs_url where j: "urljoin ev base (href a) = Inr abs_url"
    by (auto simp: returns_def split: sum.splits)
  from assms(2) [of abs_url] obtain parsed where p: "urlparse ev abs_url = Inr parsed"
    by (auto simp: returns_def split: sum.splits)
  show ?case
    using j p Cons.IH by (simp add: Let_def)
qed

lemma find_subpage_urls_returns:
  assumes "\<And>b h. returns (urljoin ev b h)" and "\<And>u. returns (urlparse ev u)"
  shows "returns (find_subpage_urls ev sp base_url)"
proof -
  from assms(2) [of base_url] obtain parsed where "urlparse ev base_url = Inr parsed"
    by (auto simp: returns_def split: sum.splits)
  then show ?thesis
    using subpage_loop_returns [OF assms] by (simp add: find_subpage_urls_def)
qed

lemma attempts_returns:
  assumes "never_raises ev"
  shows "\<exists>r. fst (attempts ev url m as st) = Inr r"
proof (induction as arbitrary: st)
  case Nil
  show ?case by simp
next
  case (Cons a as)
  from assms have c: "case respond ev (trace st) url of
       Page sp \<Rightarrow> returns (extract_emails sp) \<and> returns (find_subpage_urls ev sp url)
     | Raises e \<Rightarrow> e = RequestException"
    by (simp add: never_raises_def)
  show ?case
  proof (cases "respond ev (trace st) url")
    case (Page sp)
    with c show ?thesis by (auto simp: returns_def split: sum.splits)
  next
    case (Raises e)
    with c Cons.IH show ?thesis by (simp add: Let_def)
  qed
qed

lemma process_url_returns:
  assumes "never_raises ev"
  shows "\<exists>r. fst (process_url ev url m st) = Inr r"
  using attempts_returns [OF assms] by (simp add: process_url_def)

lemma drain_scrapes:
  assumes "never_raises ev"
    and "distinct fr" and "set fr \<inter> visited_urls st = {}"
  shows "\<exists>evs. trace (snd (snd (drain ev ms mr d fr pv E st))) = trace st @ evs
     \<and> length (subpages_scraped evs) = min (length fr) (nat (ms - pv))"
  using assms(2,3)
proof (induction fr arbitrary: pv E st)
  case Nil
  show ?case by (rule exI [of _ "[]"]) simp
next
  case (Cons u rest)
  let ?st1 = "emit (Print_scraping_subpage pv ms u) (emit (Sleep_uniform (fst d) (snd d)) st)"
  show ?case
  proof (cases rule: drain_Cons_cases [of pv ms ev mr d u rest E st])
    case stop
    then show ?thesis by (intro exI [of _ "[]"]) simp
  next
    case skip
    with Cons.prems show ?thesis by simp
  next
    case (raise e st2)
    with process_url_returns [OF assms(1), of u mr ?st1] show ?thesis by simp
  next
    case (visit emails subpages st2)
    from process_url_effects [of mr ev u ?st1] visit(3) obtain k evs where
      e: "trace st2 = trace ?st1 @ evs" "subpages_scraped evs = []"
      "visited_urls st2 = insert u (visited_urls ?st1)"
      by auto
    have "distinct rest" "set rest \<inter> visited_urls st2 = {}"
      using Cons.prems e(3) by auto
    from Cons.IH [OF this, of "pv + 1" "E \<union> emails"] obtain evs' where
      e': "trace (snd (snd (drain ev ms mr d rest (pv + 1) (E \<union> emails) st2))) = trace st2 @ evs'"
      "length (subpages_scraped evs') = min (length rest) (nat (ms - (pv + 1)))"
      by blast
    have "Suc (min (length rest) (nat (ms - (pv + 1)))) = min (Suc (length rest)) (nat (ms - pv))"
      using visit(1) by auto
    then show ?thesis
      using visit e e'
      by (intro exI [of _ "[Sleep_uniform (fst d) (snd d), Print_scraping_subpage pv ms u] @ evs
            @ evs'"]) simp
  qed
qed

lemma crawl_scrapes_budget_minus_one:
  assumes "never_raises ev"
    and "distinct (seed_frontier ev base mr)"
    and "normalize_seed base \<notin> set (seed_frontier ev base mr)"
  shows "length (subpages_scraped (trace_of (crawl ev base ms mr d)))
           = min (length (seed_frontier ev base mr)) (nat (ms - 1))"
proof -
  let ?seed = "normalize_seed base"
  let ?st0 = "\<lparr>visited_urls = {}, trace = [Print_scraping_base ?seed]\<rparr>"
  obtain r st where p: "process_url ev ?seed mr ?st0 = (r, st)"
    by (cases "process_url ev ?seed mr ?st0")
  from process_url_returns [OF assms(1), of ?seed mr ?st0] p obtain emails subpages where
    r: "r = Inr (emails, subpages)"
    by (cases r) auto
  from process_url_effects [of mr ev ?seed ?st0] obtain k evs where
    tr: "trace st = trace ?st0 @ evs" and sc: "subpages_scraped evs = []"
    and vs: "visited_urls st = {?seed}"
    using p by auto
  have sf: "seed_frontier ev base mr = subpages"
    using p r by (simp add: seed_frontier_def)
  have "distinct subpages" "set subpages \<inter> visited_urls st = {}"
    using assms(2,3) sf vs by auto
  from drain_scrapes [OF assms(1) this, of ms mr d 1 emails] obtain evs' where
    "trace (snd (snd (drain ev ms mr d subpages 1 emails st))) = trace st @ evs'"
    "length (subpages_scraped evs') = min (length subpages) (nat (ms - 1))"
    by blast
  with p r tr sc sf show ?thesis
    by (simp add: crawl_def Let_def trace_of_def)
qed

text \<open>
  C1. A job never scrapes more than \<open>max_subpages - 1\<close> subpages. With
  \<open>max_subpages = 3\<close>, ten or more discovered subpages and no exception, it scrapes
  exactly two subpages, not three: so does the job on the example site.
\<close>

theorem three_subpage_budget_visits_two:
  "int (length (subpages_scraped (trace_of (crawl ev base ms mr d)))) \<le> max 0 (ms - 1)
   \<and> (never_raises ev \<and> distinct (seed_frontier ev base mr)
        \<and> normalize_seed base \<notin> set (seed_frontier ev base mr)
        \<and> 10 \<le> length (seed_frontier ev base mr)
      \<longrightarrow> length (subpages_scraped (trace_of (crawl ev base 3 mr d))) = 2)"
proof (intro conjI impI)
  show "int (length (subpages_scraped (trace_of (crawl ev base ms mr d)))) \<le> max 0 (ms - 1)"
    using crawl_effects [of ev base ms mr d] by simp
next
  assume a: "never_raises ev \<and> distinct (seed_frontier ev base mr)
        \<and> normalize_seed base \<notin> set (seed_frontier ev base mr)
        \<and> 10 \<le> length (seed_frontier ev base mr)"
  then have "length (subpages_scraped (trace_of (crawl ev base 3 mr d)))
      = min (length (seed_frontier ev base mr)) (nat (3 - 1))"
    by (intro crawl_scrapes_budget_minus_one) simp_all
  with a show "length (subpages_scraped (trace_of (crawl ev base 3 mr d))) = 2"
    by simp
qed

theorem three_subpage_budget_visits_two_witness:
  "never_raises example_env
   \<and> distinct (seed_frontier example_env ''s.io'' 2)
   \<and> normalize_seed ''s.io'' \<notin> set (seed_frontier example_env ''s.io'' 2)
   \<and> length (seed_frontier example_env ''s.io'' 2) = 10
   \<and> subpages_scraped (trace_of (crawl example_env ''s.io'' 3 2 (1, 3)))
       = [''https://s.io/about0'', ''https://s.io/about1'']"
proof -
  have e: "extract_emails seed_page = Inr {''a@s.io''}" "extract_emails sub_page = Inr {''b@s.io''}"
    by code_simp+
  have "returns (find_subpage_urls example_env sp u)" for sp u
    by (rule find_subpage_urls_returns) (simp_all add: example_env_def returns_def)
  then have a: "never_raises example_env"
    using e by (simp add: never_raises_def returns_def example_env_def)
  have f: "seed_frontier example_env ''s.io'' 2 =
      map (\<lambda>c. ''https://s.io/about'' @ [c]) ''0123456789''"
    by code_simp
  have b: "distinct (seed_frontier example_env ''s.io'' 2)"
    "normalize_seed ''s.io'' \<notin> set (seed_frontier example_env ''s.io'' 2)"
    "length (seed_frontier example_env ''s.io'' 2) = 10"
    unfolding f by code_simp+
  have c: "subpages_scraped (trace_of (crawl example_env ''s.io'' 3 2 (1, 3)))
       = [''https://s.io/about0'', ''https://s.io/about1'']"
    by code_simp
  from three_subpage_budget_visits_two [of example_env "''s.io''" 3 2 "(1, 3)"] a b c
  show ?thesis by simp
qed

subsection \<open>The case of the extracted emails\<close>

text \<open>
  C2. The concatenation path adds the reconstructed address as it is written: a job
  on a page whose text holds \<^verbatim>\<open>jane@acme.org\<close> and whose script holds
  \<^verbatim>\<open>"Jane" + "@" + "Acme.org"\<close> returns both \<^verbatim>\<open>jane@acme.org\<close> and \<^verbatim>\<open>Jane@Acme.org\<close>.
\<close>

theorem concatenated_email_keeps_its_case:
  "extract_obfuscated_emails jane_script = Inr {''Jane@Acme.org''}
   \<and> find_emails jane_env (Str ''acme.org'') 10 2 (1, 3) = Inr {''jane@acme.org'', ''Jane@Acme.org''}
   \<and> lower ''Jane@Acme.org'' = ''jane@acme.org''"
  by code_simp

subsection \<open>The concatenation extractor\<close>

lemma quote_classes:
  assumes "is_quote q"
  shows "\<not> local_char q" "\<not> domain_char q" "\<not> is_alpha q" "\<not> is_space q" "\<not> non_quote q"
    "\<not> is_char CHR ''.'' q" "\<not> is_char CHR ''+'' q" "\<not> is_char CHR ''@'' q"
  using assms
  by (auto simp: is_quote_def squote_def dquote_def local_char_def domain_char_def is_alpha_def
      is_space_def non_quote_def is_char_def in_range_def)

lemma domain_part:
  assumes "is_quote q"
  shows "match_items [Many 1 domain_char, One (is_char CHR ''.''), Many 2 is_alpha, One is_quote]
           (''acme.org'' @ q # post) = Some [4, 1, 3, 1]"
proof -
  note qc = quote_classes [OF assms]
  have dom: "list_all domain_char ''acme.org''"
    by (simp add: domain_char_def in_range_def)
  have alp: "list_all is_alpha ''org''"
    by (simp add: is_alpha_def in_range_def)
  have tw: "length (takeWhile domain_char (''acme.org'' @ q # post)) = 8"
    using dom qc(2) by (simp add: takeWhile_tail del: append.simps)
  have tld: "match_items [Many 2 is_alpha, One is_quote] (''org'' @ q # post) = Some [length ''org'', 1]"
    using alp qc(3) assms by (intro match_many_greedy) simp_all
  have dot: "is_char CHR ''.'' CHR ''.''"
    by (simp add: is_char_def)
  have "match_items [One (is_char CHR ''.''), Many 2 is_alpha, One is_quote]
      (CHR ''.'' # ''org'' @ q # post) = Some [1, 3, 1]"
    using tld dot by (simp del: append.simps)
  then have hit: "match_items [One (is_char CHR ''.''), Many 2 is_alpha, One is_quote]
      (drop 4 (''acme.org'' @ q # post)) = Some [1, 3, 1]"
    by simp
  have nodot: "\<not> is_char CHR ''.'' CHR ''o''" "\<not> is_char CHR ''.'' CHR ''r''" "\<not> is_char CHR ''.'' CHR ''g''"
    by (simp_all add: is_char_def)
  have miss: "match_items [One (is_char CHR ''.''), Many 2 is_alpha, One is_quote]
      (drop j (''acme.org'' @ q # post)) = None" if "4 < j" "j \<le> 8" for j
  proof -
    from that have "j = 5 \<or> j = 6 \<or> j = 7 \<or> j = 8" by arith
    then show ?thesis
      using qc(6) nodot by auto
  qed
  show ?thesis
    by (rule match_many_backtrack [where K = 8 and k = 4, OF tw _ _ hit miss]) simp_all
qed

lemma match_jane_expr:
  assumes q: "list_all is_quote [q1, q2, q3, q4, q5, q6]"
    and w: "list_all is_space w1" "list_all is_space w2" "list_all is_space w3" "list_all is_space w4"
  shows "match_items concat_pattern
           (q1 # ''jane'' @ q2 # w1 @ CHR ''+'' # w2 @ q3 # CHR ''@'' # q4 # w3 @ CHR ''+'' # w4
              @ q5 # ''acme.org'' @ q6 # post)
         = Some [1, 4, 1, length w1, 1, length w2, 1, 1, 1, length w3, 1, length w4, 1, 4, 1, 3, 1]"
proof -
  from q have q1: "is_quote q1" and q2: "is_quote q2" and q3: "is_quote q3"
    and q4: "is_quote q4" and q5: "is_quote q5" and q6: "is_quote q6" by simp_all
  let ?t3 = "q5 # ''acme.org'' @ q6 # post"
  let ?t5 = "CHR ''+'' # w4 @ ?t3"
  let ?t7 = "q3 # CHR ''@'' # q4 # w3 @ ?t5"
  let ?t9 = "CHR ''+'' # w2 @ ?t7"
  let ?t11 = "q2 # w1 @ ?t9"
  have m3: "match_items [One is_quote, Many 1 domain_char, One (is_char CHR ''.''), Many 2 is_alpha,
      One is_quote] ?t3 = Some [1, 4, 1, 3, 1]"
    using domain_part [OF q6, of post] q5 by simp
  have m4: "match_items (Many 0 is_space # [One is_quote, Many 1 domain_char, One (is_char CHR ''.''),
      Many 2 is_alpha, One is_quote]) (w4 @ ?t3) = Some (length w4 # [1, 4, 1, 3, 1])"
    using w(4) quote_classes(4) [OF q5] m3 by (intro match_spaces) simp_all
  have m5: "match_items (One (is_char CHR ''+'') # Many 0 is_space # [One is_quote, Many 1 domain_char,
      One (is_char CHR ''.''), Many 2 is_alpha, One is_quote]) ?t5 = Some (1 # length w4 # [1, 4, 1, 3, 1])"
    using m4 by (intro match_one) (simp_all add: is_char_def)
  have m6: "match_items (Many 0 is_space # One (is_char CHR ''+'') # Many 0 is_space # [One is_quote,
      Many 1 domain_char, One (is_char CHR ''.''), Many 2 is_alpha, One is_quote]) (w3 @ ?t5)
      = Some (length w3 # 1 # length w4 # [1, 4, 1, 3, 1])"
    using w(3) m5 by (intro match_spaces) (simp_all add: is_space_def in_range_def)
  have m7: "match_items (One is_quote # One (is_char CHR ''@'') # One is_quote # Many 0 is_space #
      One (is_char CHR ''+'') # Many 0 is_space # [One is_quote,
      Many 1 domain_char, One (is_char CHR ''.''), Many 2 is_alpha, One is_quote]) ?t7
      = Some (1 # 1 # 1 # length w3 # 1 # length w4 # [1, 4, 1, 3, 1])"
    using m6 q3 q4 by (intro match_one) (simp_all add: is_char_def)
  have m8: "match_items (Many 0 is_space # One is_quote # One (is_char CHR ''@'') # One is_quote #
      Many 0 is_space # One (is_char CHR ''+'') # Many 0 is_space # [One is_quote,
      Many 1 domain_char, One (is_char CHR ''.''), Many 2 is_alpha, One is_quote]) (w2 @ ?t7)
      = Some (length w2 # 1 # 1 # 1 # length w3 # 1 # length w4 # [1, 4, 1, 3, 1])"
    using w(2) quote_classes(4) [OF q3] m7 by (intro match_spaces) simp_all
  have m9: "match_items (One (is_char CHR ''+'') # Many 0 is_space # One is_quote #
      One (is_char CHR ''@'') # One is_quote #
      Many 0 is_space # One (is_char CHR ''+'') # Many 0 is_space # [One is_quote,
      Many 1 domain_char, One (is_char CHR ''.''), Many 2 is_alpha, One is_quote]) ?t9
      = Some (1 # length w2 # 1 # 1 # 1 # length w3 # 1 # length w4 # [1, 4, 1, 3, 1])"
    using m8 by (intro match_one) (simp_all add: is_char_def)
  have m10: "match_items (Many 0 is_space # One (is_char CHR ''+'') # Many 0 is_space # One is_quote #
      One (is_char CHR ''@'') # One is_quote #
      Many 0 is_space # One (is_char CHR ''+'') # Many 0 is_space # [One is_quote,
      Many 1 domain_char, One (is_char CHR ''.''), Many 2 is_alpha, One is_quote]) (w1 @ ?t9)
      = Some (length w1 # 1 # length w2 # 1 # 1 # 1 # length w3 # 1 # length w4 # [1, 4, 1, 3, 1])"
    using w(1) m9 by (intro match_spaces) (simp_all add: is_space_def in_range_def)
  have m11: "match_items (One is_quote # Many 0 is_space # One (is_char CHR ''+'') # Many 0 is_space #
      One is_quote # One (is_char CHR ''@'') # One is_quote #
      Many 0 is_space # One (is_char CHR ''+'') # Many 0 is_space # [One is_quote,
      Many 1 domain_char, One (is_char CHR ''.''), Many 2 is_alpha, One is_quote]) ?t11
      = Some (1 # length w1 # 1 # length w2 # 1 # 1 # 1 # length w3 # 1 # length w4 # [1, 4, 1, 3, 1])"
    using m10 q2 by (intro match_one) simp_all
  have loc: "list_all local_char ''jane''"
    by (simp add: local_char_def in_range_def)
  have m12: "match_items (Many 1 local_char # One is_quote # Many 0 is_space # One (is_char CHR ''+'') #
      Many 0 is_space # One is_quote # One (is_char CHR ''@'') # One is_quote #
      Many 0 is_space # One (is_char CHR ''+'') # Many 0 is_space # [One is_quote,
      Many 1 domain_char, One (is_char CHR ''.''), Many 2 is_alpha, One is_quote]) (''jane'' @ ?t11)
      = Some (length ''jane'' # 1 # length w1 # 1 # length w2 # 1 # 1 # 1 # length w3 # 1 # length w4
          # [1, 4, 1, 3, 1])"
    using loc quote_classes(1) [OF q2] m11 by (intro match_many_greedy) simp_all
  show ?thesis
    unfolding concat_pattern_def
    using m12 q1 by (simp del: append.simps)
qed

lemma match_part:
  assumes "is_quote qa" and "is_quote qb" and "list_all non_quote body"
    and "list_all is_space wa" and "list_all is_space wb"
    and "rest = [] \<or> \<not> is_space (hd rest)"
  shows "match_items parts_pattern (qa # body @ qb # wa @ CHR ''+'' # wb @ rest)
         = Some [1, length body, 1, length wa, 1, length wb]"
proof -
  have m6: "match_items [Many 0 is_space] (wb @ rest) = Some [length wb]"
    using assms(5,6) by (intro match_spaces) simp_all
  have m5: "match_items [One (is_char CHR ''+''), Many 0 is_space] (CHR ''+'' # wb @ rest)
      = Some [1, length wb]"
    using m6 by (intro match_one) (simp_all add: is_char_def)
  have m4: "match_items [Many 0 is_space, One (is_char CHR ''+''), Many 0 is_space]
      (wa @ CHR ''+'' # wb @ rest) = Some [length wa, 1, length wb]"
    using assms(4) m5 by (intro match_spaces) (simp_all add: is_space_def in_range_def)
  have m3: "match_items [One is_quote, Many 0 is_space, One (is_char CHR ''+''), Many 0 is_space]
      (qb # wa @ CHR ''+'' # wb @ rest) = Some [1, length wa, 1, length wb]"
    using m4 assms(2) by (intro match_one) simp_all
  have m2: "match_items [Many 0 non_quote, One is_quote, Many 0 is_space, One (is_char CHR ''+''),
      Many 0 is_space] (body @ qb # wa @ CHR ''+'' # wb @ rest)
      = Some [length body, 1, length wa, 1, length wb]"
    using assms(3) quote_classes(5) [OF assms(2)] m3 by (intro match_many_greedy) simp_all
  show ?thesis
    unfolding parts_pattern_def
    using m2 assms(1) by (intro match_one) simp_all
qed

lemma finditer_part:
  assumes "is_quote qa" and "is_quote qb" and "list_all non_quote body"
    and "list_all is_space wa" and "list_all is_space wb"
    and "rest = [] \<or> \<not> is_space (hd rest)"
  shows "findall_group 1 parts_pattern (qa # body @ qb # wa @ CHR ''+'' # wb @ rest)
         = body # findall_group 1 parts_pattern rest"
proof -
  let ?m = "qa # body @ qb # wa @ CHR ''+'' # wb"
  have "match_items parts_pattern (?m @ rest) = Some [1, length body, 1, length wa, 1, length wb]"
    using match_part [OF assms] by simp
  from finditer_hit [OF this]
  have "finditer parts_pattern (?m @ rest)
      = (?m @ rest, [1, length body, 1, length wa, 1, length wb]) # finditer parts_pattern rest"
    by simp
  then show ?thesis
    by (simp add: findall_group_def)
qed

lemma reconstruct_jane_expr:
  assumes q: "list_all is_quote [q1, q2, q3, q4, q5, q6]"
    and w: "list_all is_space w1" "list_all is_space w2" "list_all is_space w3" "list_all is_space w4"
  shows "reconstruct (q1 # ''jane'' @ q2 # w1 @ CHR ''+'' # w2 @ q3 # CHR ''@'' # q4 # w3 @ CHR ''+'' # w4
              @ q5 # ''acme.org'' @ [q6]) = ''jane@acme.org''"
proof -
  from q have q1: "is_quote q1" and q2: "is_quote q2" and q3: "is_quote q3"
    and q4: "is_quote q4" and q5: "is_quote q5" and q6: "is_quote q6" by simp_all
  have nq: "list_all non_quote ''jane''" "list_all non_quote ''@''" "list_all non_quote ''acme.org''"
    by (simp_all add: non_quote_def is_quote_def squote_def dquote_def)
  let ?r2 = "q5 # ''acme.org'' @ q6 # [] @ CHR ''+'' # [] @ []"
  let ?r1 = "q3 # ''@'' @ q4 # w3 @ CHR ''+'' # w4 @ ?r2"
  have e: "findall_group 1 parts_pattern [] = []"
    by (simp add: findall_group_def parts_pattern_def)
  have p3: "findall_group 1 parts_pattern ?r2 = [''acme.org'']"
    using finditer_part [OF q5 q6 nq(3), of "[]" "[]" "[]"] e by simp
  have p2: "findall_group 1 parts_pattern ?r1 = [''@'', ''acme.org'']"
    using finditer_part [OF q3 q4 nq(2) w(3) w(4), of ?r2] quote_classes(4) [OF q5] p3 by simp
  have p1: "findall_group 1 parts_pattern (q1 # ''jane'' @ q2 # w1 @ CHR ''+'' # w2 @ ?r1)
      = [''jane'', ''@'', ''acme.org'']"
    using finditer_part [OF q1 q2 nq(1) w(1) w(2), of ?r1] quote_classes(4) [OF q3] p2 by simp
  show ?thesis
    using p1 by (simp add: reconstruct_def)
qed

lemma decode_entity_in_range:
  "length ds \<le> 4300 \<Longrightarrow> int_of_digits ds < 0x110000 \<Longrightarrow> \<exists>d. decode_entity ds = Inr d"
  by (simp add: decode_entity_def py_int_def py_chr_def)

lemma sub_entities_in_range:
  "entities_in_range s \<Longrightarrow> \<exists>decoded. sub_entities s = Inr decoded"
proof (induction s rule: sub_entities.induct)
  case 1
  show ?case by simp
next
  case (2 c cs)
  show ?case
  proof (cases "match_items entity_pattern (c # cs)")
    case None
    with "2.prems" have "entities_in_range cs"
      by (simp add: entities_in_range_def)
    from "2.IH"(1) [OF None this] None show ?thesis
      by auto
  next
    case (Some ns)
    let ?ds = "take (ns ! 2) (drop 2 (c # cs))"
    from "2.prems" Some have n: "length ?ds \<le> 4300" "int_of_digits ?ds < 0x110000"
      and rest: "entities_in_range (drop (sum_list ns - 1) cs)"
      by (simp_all add: entities_in_range_def)
    from n have "\<exists>d. decode_entity ?ds = Inr d"
      by (rule decode_entity_in_range)
    then obtain d where d: "decode_entity ?ds = Inr d" ..
    from "2.IH"(2) [OF Some d rest] Some d show ?thesis
      by auto
  qed
qed

lemma fold_keeps:
  assumes "\<And>m acc. acc \<subseteq> f m acc" and "x \<in> acc"
  shows "x \<in> fold f ms acc"
  using assms(2)
proof (induction ms arbitrary: acc)
  case Nil
  then show ?case by simp
next
  case (Cons m ms)
  have "x \<in> f m acc" using assms(1) [of acc m] Cons.prems by auto
  then show ?case using Cons.IH by simp
qed

lemma valid_jane: "validate_email ''jane@acme.org''"
  by code_simp

text \<open>
  C6, as amended. Let a script text, of code points up to U+00FF, hold the
  concatenation \<^verbatim>\<open>"jane" + "@" + "acme.org"\<close>, each quote single or double and any
  whitespace around each \<^verbatim>\<open>+\<close>. When the scan of \<^verbatim>\<open>re.findall\<close> arrives at the first
  quote of the concatenation (no match that starts before it runs into it) and every
  numeric character reference \<^verbatim>\<open>&#N;\<close> of the text has at most 4300 digits and \<open>N\<close> at
  most U+10FFFF, the extractor returns a set that holds \<^verbatim>\<open>jane@acme.org\<close>.
\<close>

theorem jane_expr_is_extracted:
  assumes pre: "scan_reaches concat_pattern (pre @ jane_expr qs ws @ post) (length pre)"
    and q: "length qs = 6" "list_all is_quote qs"
    and w: "length ws = 4" "list_all (list_all is_space) ws"
    and ent: "entities_in_range (pre @ jane_expr qs ws @ post)"
  shows "\<exists>emails. extract_obfuscated_emails (pre @ jane_expr qs ws @ post) = Inr emails
           \<and> ''jane@acme.org'' \<in> emails"
proof -
  from q obtain q1 q2 q3 q4 q5 q6 where qs: "qs = [q1, q2, q3, q4, q5, q6]"
    by (auto simp: length_Suc_conv eval_nat_numeral)
  from w obtain w1 w2 w3 w4 where ws: "ws = [w1, w2, w3, w4]"
    by (auto simp: length_Suc_conv eval_nat_numeral)
  from q(2) qs have qq: "list_all is_quote [q1, q2, q3, q4, q5, q6]" by simp
  from w(2) ws have ww: "list_all is_space w1" "list_all is_space w2" "list_all is_space w3"
    "list_all is_space w4" by simp_all
  let ?C = "q1 # ''jane'' @ q2 # w1 @ CHR ''+'' # w2 @ q3 # CHR ''@'' # q4 # w3 @ CHR ''+'' # w4
              @ q5 # ''acme.org'' @ [q6]"
  let ?ns = "[1, 4, 1, length w1, 1, length w2, 1, 1, 1, length w3, 1, length w4, 1, 4, 1, 3, 1]"
  have C: "jane_expr qs ws = ?C"
    by (simp add: jane_expr_def literal_def plus_sign_def qs ws)
  have m: "match_items concat_pattern (?C @ post) = Some ?ns"
    using match_jane_expr [OF qq ww, of post] by simp
  have hit: "finditer concat_pattern (?C @ post) = (?C @ post, ?ns) # finditer concat_pattern post"
    by (rule finditer_hit [OF m]) simp_all
  from scan_reaches_finditer [OF pre] obtain X where
    scan: "finditer concat_pattern (pre @ ?C @ post) = X @ finditer concat_pattern (?C @ post)"
    by (auto simp: C)
  have tk: "take (sum_list ?ns) (?C @ post) = ?C"
    by (rule take_prefix) simp
  define Y where "Y = map (\<lambda>(t, ns). take (sum_list ns) t) X"
  have found: "findall concat_pattern (pre @ ?C @ post) = Y @ ?C # findall concat_pattern post"
    unfolding findall_def scan hit Y_def
    by (simp only: list.map map_append prod.case tk)
  define f where "f = (\<lambda>m emails. (let reconstructed = reconstruct m
              in if CHR ''@'' \<in> set reconstructed \<and> validate_email reconstructed
                 then insert reconstructed emails else emails))"
  have unfold: "extract_obfuscated_emails s =
      (case sub_entities s of Inl e \<Rightarrow> Inl e
       | Inr decoded \<Rightarrow> Inr (fold f (findall concat_pattern s) {} \<union> extract_emails_from_text decoded))"
    for s
    unfolding extract_obfuscated_emails_def f_def Let_def by (rule refl)
  have keep: "acc \<subseteq> f m acc" for m acc
    by (auto simp: f_def Let_def)
  have first: "f ?C acc = insert ''jane@acme.org'' acc" for acc
    using reconstruct_jane_expr [OF qq ww] valid_jane by (simp add: f_def Let_def del: append.simps)
  have "''jane@acme.org'' \<in> fold f (findall concat_pattern post) (insert ''jane@acme.org'' (fold f Y {}))"
    by (rule fold_keeps [of f, OF keep]) simp
  then have mem: "''jane@acme.org'' \<in> fold f (findall concat_pattern (pre @ ?C @ post)) {}"
    by (simp only: found fold_append fold_simps o_apply first)
  from sub_entities_in_range [OF ent] obtain decoded where
    dec: "sub_entities (pre @ ?C @ post) = Inr decoded"
    by (auto simp: C)
  show ?thesis
    unfolding C unfold
    using mem by (simp only: dec sum.case) blast
qed

theorem jane_expr_is_extracted_witness:
  "scan_reaches concat_pattern ((''var e = '' @ [dquote] @ ''mailto:'' @ [dquote] @ '' + '') @
         jane_expr [dquote, dquote, squote, squote, dquote, squote] ['' '', '' '', [], ''  '']
         @ ''; // &#65;'') (length (''var e = '' @ [dquote] @ ''mailto:'' @ [dquote] @ '' + ''))
   \<and> list_all is_quote [dquote, dquote, squote, squote, dquote, squote]
   \<and> list_all (list_all is_space) ['' '', '' '', [], ''  '']
   \<and> entities_in_range ((''var e = '' @ [dquote] @ ''mailto:'' @ [dquote] @ '' + '') @
         jane_expr [dquote, dquote, squote, squote, dquote, squote] ['' '', '' '', [], ''  '']
         @ ''; // &#65;'')
   \<and> extract_obfuscated_emails ((''var e = '' @ [dquote] @ ''mailto:'' @ [dquote] @ '' + '') @
         jane_expr [dquote, dquote, squote, squote, dquote, squote] ['' '', '' '', [], ''  '']
         @ ''; // &#65;'') = Inr {''jane@acme.org''}"
proof -
  have a: "scan_reaches concat_pattern ((''var e = '' @ [dquote] @ ''mailto:'' @ [dquote] @ '' + '') @
         jane_expr [dquote, dquote, squote, squote, dquote, squote] ['' '', '' '', [], ''  '']
         @ ''; // &#65;'') (length (''var e = '' @ [dquote] @ ''mailto:'' @ [dquote] @ '' + ''))"
    by code_simp
  have b: "list_all is_quote [dquote, dquote, squote, squote, dquote, squote]"
    by code_simp
  have c: "list_all (list_all is_space) ['' '', '' '', [], ''  '']"
    by code_simp
  have d: "entities_in_range ((''var e = '' @ [dquote] @ ''mailto:'' @ [dquote] @ '' + '') @
         jane_expr [dquote, dquote, squote, squote, dquote, squote] ['' '', '' '', [], ''  '']
         @ ''; // &#65;'')"
    by code_simp
  have e: "extract_obfuscated_emails ((''var e = '' @ [dquote] @ ''mailto:'' @ [dquote] @ '' + '') @
         jane_expr [dquote, dquote, squote, squote, dquote, squote] ['' '', '' '', [], ''  '']
         @ ''; // &#65;'') = Inr {''jane@acme.org''}"
    by code_simp
  from jane_expr_is_extracted [OF a _ b _ c d] a b c d e
  show ?thesis by simp
qed

text \<open>
  C6 as stated fails on two texts that hold the concatenation: after
  \<^verbatim>\<open>"a"+"@"+"b.cc\<close> the scan takes the first quote of \<^verbatim>\<open>"jane"\<close> as the end of an earlier
  match, never arrives at that quote and finds only \<^verbatim>\<open>a@b.cc\<close>; and before
  \<^verbatim>\<open>&#1114112;\<close> the extractor raises.
\<close>

theorem jane_expr_is_not_always_extracted:
  "extract_obfuscated_emails (open_concat @ jane_expr (replicate 6 dquote) (replicate 4 []))
     = Inr {''a@b.cc''}
   \<and> ''jane@acme.org'' \<notin> {''a@b.cc''}
   \<and> \<not> scan_reaches concat_pattern (open_concat @ jane_expr (replicate 6 dquote) (replicate 4 []))
         (length open_concat)
   \<and> extract_obfuscated_emails (jane_expr (replicate 6 dquote) (replicate 4 []) @ ''&#1114112;'')
     = Inl ValueError
   \<and> \<not> entities_in_range (jane_expr (replicate 6 dquote) (replicate 4 []) @ ''&#1114112;'')"
  by code_simp

end
